theory Spec2Isabelle
  imports Complex_Main
begin

section \<open>The job scheduler of plot\_srf\_perspective.py\<close>

text \<open>
  The script \<^verbatim>\<open>src/plot/plot_srf_perspective.py\<close> runs as one master process
  and \<^verbatim>\<open>nproc\<close> slave processes spawned over MPI. The master owns a list of
  pending messages (\<^verbatim>\<open>msg_list\<close>), a counter of dependencies
  (\<^verbatim>\<open>msg_deps\<close>) and one slot per slave (\<^verbatim>\<open>in_progress\<close>); each slave asks
  for work until it is sent \<^verbatim>\<open>StopIteration\<close>.

  The master's loop body reads no clock and shares no memory: the only input of an
  iteration is the rank of the slave whose request \<^verbatim>\<open>comm.recv\<close> returned. A run
  of the master is therefore a function of the sequence of ranks it receives
  requests from, and that is how the loop is modelled below.
\<close>

subsection \<open>Data\<close>

text \<open>Exceptions the modelled code can raise.\<close>

datatype error = IndexError | TypeError | ValueError | ZeroDivisionError | NameError

text \<open>
  The parameter dictionary of a \<^verbatim>\<open>timeslice\<close> job. \<^verbatim>\<open>seq\<close> is the frame
  number (\<^verbatim>\<open>None\<close> for the single still image). \<^verbatim>\<open>sim_time\<close> is a float:
  \<^verbatim>\<open>-1\<close> for a frame without ground motion, \<^verbatim>\<open>i * 1.0 / args.framerate\<close> for
  the \<open>i\<close>-th dynamic frame; the model keeps the index \<open>i\<close> it is computed from
  (\<open>None\<close> for \<^verbatim>\<open>-1\<close>). The other entries (\<^verbatim>\<open>azimuth\<close>, \<^verbatim>\<open>tilt\<close>,
  \<^verbatim>\<open>scale_t\<close>, \<^verbatim>\<open>transparency\<close>) are floats that the scheduler never reads
  and are left out, as is the shared \<^verbatim>\<open>meta\<close> dictionary.
\<close>

datatype params = Params (seq: "int option") (sim_frame: "nat option")

text \<open>
  What the master puts into \<^verbatim>\<open>msg_list\<close>, sends, and stores in
  \<^verbatim>\<open>in_progress\<close>:
  \<^item> \<open>PyNone\<close>: Python's \<^verbatim>\<open>None\<close> (nothing to do yet, or an empty slot);
  \<^item> \<open>StopIteration\<close>: the class \<^verbatim>\<open>StopIteration\<close>, the stop sentinel;
  \<^item> \<open>Load_xyts\<close>: \<^verbatim>\<open>[load_xyts, meta]\<close>;
  \<^item> \<open>Load_xyts_ts i n\<close>: \<^verbatim>\<open>[load_xyts_ts, meta, {'start':i, 'inc':n}]\<close>;
  \<^item> \<open>Timeslice p\<close>: \<^verbatim>\<open>[timeslice, p, meta]\<close>.
\<close>

datatype msg =
    PyNone
  | StopIteration
  | Load_xyts
  | Load_xyts_ts (start: nat) (inc: nat)
  | Timeslice params

text \<open>
  A slave's \<^verbatim>\<open>logbook\<close> holds Python tuples of two shapes:
  \<^verbatim>\<open>('sleep', time() - t0)\<close> and \<^verbatim>\<open>('timeslice', task[1], time() - t0)\<close>.
  Durations are read from the wall clock; the model takes them as given numbers.
\<close>

type_synonym duration = real

datatype log_entry =
    Tuple2 string duration
  | Tuple3 string params duration

text \<open>
  What the master does on the communicator, in order:
  \<^verbatim>\<open>comm.send(obj = msg, dest = slave_id)\<close>, the collective
  \<^verbatim>\<open>comm.gather(None, root = MPI.ROOT)\<close> with the list it returned, and
  \<^verbatim>\<open>comm.Disconnect()\<close>.
\<close>

datatype event =
    Send nat msg
  | Gather "log_entry list list"
  | Disconnect

text \<open>
  The values the master's loop reads but never changes. They are computed by the
  set-up code from the command line and the input files:
  \<^item> \<open>animate\<close>: \<^verbatim>\<open>args.animate\<close>;
  \<^item> \<open>has_xyts\<close>: \<^verbatim>\<open>xyts_file != None\<close> (only then is \<^verbatim>\<open>xfile\<close> bound);
  \<^item> \<open>nprocs\<close>: \<^verbatim>\<open>args.nproc\<close>, the number of slaves spawned;
  \<^item> \<open>frames0\<close>: \<^verbatim>\<open>int(args.time * args.framerate)\<close>;
  \<^item> \<open>t_frames\<close>: \<^verbatim>\<open>meta['t_frames'] = int(args.mtime * args.framerate)\<close>;
  \<^item> \<open>frames_sr\<close>: \<^verbatim>\<open>frames_sr\<close>, the number of dynamic frames;
  \<^item> \<open>nt\<close>: \<^verbatim>\<open>xfile.nt\<close>, the number of timeslices in the XYTS file;
  \<^item> \<open>xpos\<close>: the timeslice shown in dynamic frame \<open>i\<close>,
    \<^verbatim>\<open>int(round((i * 1.0 / args.framerate) / xfile.dt))\<close>. It is computed in
    floating point from file data, so the model takes the function as given.
\<close>

record args =
  animate :: bool
  has_xyts :: bool
  nprocs :: nat
  frames0 :: int
  t_frames :: int
  frames_sr :: int
  nt :: int
  xpos :: "nat \<Rightarrow> int"

text \<open>
  The master's variables. \<open>nproc\<close> is a natural number: it starts as the number of
  spawned processes and is decremented only inside the body of
  \<^verbatim>\<open>while nproc:\<close>, where it is not zero.
\<close>

record master =
  msg_list :: "msg list"
  msg_deps :: int
  nproc :: nat
  in_progress :: "msg list"
  comm_log :: "event list"

subsection \<open>Set-up of the message list (lines 332--334 and 424--458)\<close>

text \<open>
  Only the construction of \<^verbatim>\<open>msg_list\<close>, \<^verbatim>\<open>msg_deps\<close> and
  \<^verbatim>\<open>in_progress\<close> is modelled. In animation mode the two loops that build the
  first frames divide by \<^verbatim>\<open>float(frames - 1)\<close>, by \<^verbatim>\<open>meta['t_frames']\<close> and by
  \<^verbatim>\<open>meta['t_frames'] - 1.0\<close> in their first pass; Python raises
  \<^verbatim>\<open>ZeroDivisionError\<close> there and the master loop is never entered.
\<close>

definition initial :: "args \<Rightarrow> error + master" where
  "initial a =
     (if animate a \<and> 0 < frames0 a \<and> (frames0 a = 1 \<or> t_frames a = 0) then Inl ZeroDivisionError
      else if animate a \<and> t_frames a = 1 then Inl ZeroDivisionError
      else Inr \<lparr>
        msg_list =
          (if \<not> animate a then [Timeslice (Params None None)]
           else (if has_xyts a then [Load_xyts] else [])
              @ map (\<lambda>i. Timeslice (Params (Some (int i)) None)) [0..<nat (frames0 a)]
              @ map (\<lambda>i. Timeslice (Params (Some (frames0 a + int i)) None)) [0..<nat (t_frames a)]),
        msg_deps = (if has_xyts a \<and> animate a then 1 else 0),
        nproc = nprocs a,
        in_progress = replicate (nprocs a) PyNone,
        comm_log = [] \<rparr>)"

subsection \<open>Dependency tracking (lines 465--491)\<close>

text \<open>
  Python 2's \<^verbatim>\<open>range(a, b, k)\<close> for a positive step \<open>k\<close>: the list
  \<open>a, a + k, a + 2k, \<dots>\<close> below \<open>b\<close>. The caller handles \<open>k = 0\<close>, where Python
  raises \<^verbatim>\<open>ValueError\<close>.
\<close>

definition py_range :: "int \<Rightarrow> int \<Rightarrow> nat \<Rightarrow> int list" where
  "py_range a b k = map (\<lambda>j. a + int j * int k) [0..<nat ((b - a + int k - 1) div int k)]"

text \<open>
  The loop \<^verbatim>\<open>for i in xrange(frames_sr)\<close> of lines 482--490, over the remaining
  indices, appending to the message list \<open>q\<close>. On a match it first computes
  \<^verbatim>\<open>scale_t = min(float(i), meta['t_frames']) / meta['t_frames']\<close>, which raises
  \<^verbatim>\<open>ZeroDivisionError\<close> when \<^verbatim>\<open>meta['t_frames']\<close> is \<open>0\<close>, and then reads
  \<^verbatim>\<open>frames\<close>, which is bound only in animation mode (its value there is
  \<open>frames0 + t_frames\<close>, line 453).
\<close>

fun ready_frames :: "args \<Rightarrow> int list \<Rightarrow> nat list \<Rightarrow> msg list \<Rightarrow> error + msg list" where
  "ready_frames a ready [] q = Inr q"
| "ready_frames a ready (i # rest) q =
     (if xpos a i \<in> set ready then
        (if t_frames a = 0 then Inl ZeroDivisionError
         else if \<not> animate a then Inl NameError
         else ready_frames a ready rest
                (q @ [Timeslice (Params (Some (frames0 a + t_frames a + int i)) (Some i))]))
      else ready_frames a ready rest q)"

text \<open>
  Lines 465--491: \<^verbatim>\<open>finished = in_progress[slave_id]\<close> and the reaction to it.
  Indexing the class \<^verbatim>\<open>StopIteration\<close> (\<^verbatim>\<open>finished[0]\<close>) raises
  \<^verbatim>\<open>TypeError\<close>. The call of \<^verbatim>\<open>gmt.xyv_cpt_range\<close> in line 472 only stores a
  float in \<^verbatim>\<open>meta\<close> and is left out.
\<close>

definition resolve :: "args \<Rightarrow> nat \<Rightarrow> master \<Rightarrow> error + master" where
  "resolve a slave_id s =
     (if length (in_progress s) \<le> slave_id then Inl IndexError
      else case in_progress s ! slave_id of
        PyNone \<Rightarrow> Inr s
      | StopIteration \<Rightarrow> Inl TypeError
      | Load_xyts \<Rightarrow>
          Inr (s\<lparr>msg_deps := msg_deps s - 1 + int (nproc s),
                 msg_list := msg_list s @ map (\<lambda>i. Load_xyts_ts i (nproc s)) [0..<nproc s]\<rparr>)
      | Load_xyts_ts st ic \<Rightarrow>
          if \<not> has_xyts a then Inl NameError
          else if nproc s = 0 then Inl ValueError
          else (case ready_frames a (py_range (int st) (nt a) (nproc s))
                       [0..<nat (frames_sr a)] (msg_list s) of
                  Inl e \<Rightarrow> Inl e
                | Inr q \<Rightarrow> Inr (s\<lparr>msg_list := q, msg_deps := msg_deps s - 1\<rparr>))
      | Timeslice p \<Rightarrow> Inr s)"

subsection \<open>Handing out the next message (lines 493--506)\<close>

text \<open>Lines 493--500: an empty list gets a sentinel.\<close>

definition stop_or_wait :: "master \<Rightarrow> master" where
  "stop_or_wait s =
     (if length (msg_list s) = 0 then
        (if msg_deps s = 0 then s\<lparr>msg_list := msg_list s @ [StopIteration], nproc := nproc s - 1\<rparr>
         else s\<lparr>msg_list := msg_list s @ [PyNone]\<rparr>)
      else s)"

text \<open>
  Lines 503--506: take the head of the list, send it to the slave that asked, then
  store it in the slave's slot.
\<close>

definition next_job :: "nat \<Rightarrow> master \<Rightarrow> error + master" where
  "next_job slave_id s =
     (case msg_list s of
        [] \<Rightarrow> Inl IndexError
      | m # rest \<Rightarrow>
          if length (in_progress s) \<le> slave_id then Inl IndexError
          else Inr (s\<lparr>msg_list := rest,
                      comm_log := comm_log s @ [Send slave_id m],
                      in_progress := (in_progress s)[slave_id := m]\<rparr>))"

text \<open>One pass through the body of \<^verbatim>\<open>while nproc:\<close>, for a request of \<open>slave_id\<close>.\<close>

definition iteration :: "args \<Rightarrow> nat \<Rightarrow> master \<Rightarrow> error + master" where
  "iteration a slave_id s =
     (case resolve a slave_id s of
        Inl e \<Rightarrow> Inl e
      | Inr s1 \<Rightarrow> next_job slave_id (stop_or_wait s1))"

text \<open>
  The loop \<^verbatim>\<open>while nproc:\<close> (lines 461--506) over the ranks of the requests the
  master receives. When the requests run out while \<open>nproc\<close> is not zero the master
  is blocked in \<^verbatim>\<open>comm.recv\<close>; the state returned then still has \<open>nproc \<noteq> 0\<close>.
\<close>

fun master_loop :: "args \<Rightarrow> nat list \<Rightarrow> master \<Rightarrow> error + master" where
  "master_loop a [] s = Inr s"
| "master_loop a (w # ws) s =
     (if nproc s = 0 then Inr s
      else case iteration a w s of
        Inl e \<Rightarrow> Inl e
      | Inr s' \<Rightarrow> master_loop a ws s')"

subsection \<open>Reachable states\<close>

text \<open>
  The states of the master at the head of its loop: the state after set-up, and every
  state that an iteration leads to from such a state with \<open>nproc \<noteq> 0\<close>. An
  iteration that raises leads nowhere: every reachable state comes from a run in which
  the master has not crashed. In particular a request from a rank outside the pool, or
  from a slave that has already been sent \<^verbatim>\<open>StopIteration\<close> (and has left its own
  loop), makes the iteration raise, so no such request occurs on the way to a
  reachable state.
\<close>

inductive reachable :: "args \<Rightarrow> master \<Rightarrow> bool" for a :: args where
  start: "initial a = Inr s \<Longrightarrow> reachable a s"
| step: "reachable a s \<Longrightarrow> nproc s \<noteq> 0 \<Longrightarrow> iteration a w s = Inr s' \<Longrightarrow> reachable a s'"

text \<open>Generator jobs are the two kinds whose completion adds messages to the list.\<close>

fun gen :: "msg \<Rightarrow> bool" where
  "gen Load_xyts = True"
| "gen (Load_xyts_ts i n) = True"
| "gen m = False"

fun is_job :: "msg \<Rightarrow> bool" where
  "is_job PyNone = False"
| "is_job StopIteration = False"
| "is_job m = True"

text \<open>The messages sent to slave \<open>w\<close>, oldest first.\<close>

fun replies :: "nat \<Rightarrow> event list \<Rightarrow> msg list" where
  "replies w [] = []"
| "replies w (Send v m # es) = (if v = w then m # replies w es else replies w es)"
| "replies w (e # es) = replies w es"

text \<open>The invariant of the loop head.\<close>

definition inv :: "args \<Rightarrow> master \<Rightarrow> bool" where
  "inv a s \<longleftrightarrow>
     length (in_progress s) = nprocs a \<and>
     msg_deps s = int (length (filter gen (msg_list s)) + length (filter gen (in_progress s))) \<and>
     (\<forall>m \<in> set (msg_list s). is_job m) \<and>
     nproc s = length (filter (\<lambda>m. m \<noteq> StopIteration) (in_progress s)) \<and>
     ((\<exists>m \<in> set (msg_list s) \<union> set (in_progress s). gen m) \<longrightarrow>
        nproc s = nprocs a \<and> animate a \<and> has_xyts a) \<and>
     (\<forall>m \<in> set (msg_list s) \<union> set (in_progress s). \<forall>i n.
        m = Load_xyts_ts i n \<longrightarrow> n = nprocs a \<and> i < n)"

text \<open>The job that line 487 appends for dynamic frame \<open>i\<close>.\<close>

definition frame_job :: "args \<Rightarrow> nat \<Rightarrow> msg" where
  "frame_job a i = Timeslice (Params (Some (frames0 a + t_frames a + int i)) (Some i))"

text \<open>The master from set-up to the loop, for the requests of the ranks \<open>ws\<close>.\<close>

definition run :: "args \<Rightarrow> nat list \<Rightarrow> error + master" where
  "run a ws = (case initial a of Inl e \<Rightarrow> Inl e | Inr s \<Rightarrow> master_loop a ws s)"

subsection \<open>The slave (lines 546--581)\<close>

text \<open>
  What \<^verbatim>\<open>comm.sendrecv\<close> can return to a slave: a message of the master, or an
  object that the master never builds but that the slave's code has branches for.
  \<^item> \<open>Unknown_list x\<close>: a non-empty list whose first item is none of the three
    job functions; \<open>x\<close> is its \<^verbatim>\<open>str()\<close>.
  \<^item> \<open>Unknown_tuple xs\<close>: a tuple whose first item is none of the three job
    functions; \<open>xs\<close> are the \<^verbatim>\<open>str()\<close> of its items.
  \<^item> \<open>Unindexable\<close>: an object without \<^verbatim>\<open>__getitem__\<close>, such as a number.
  The master's own jobs are lists in animation mode and a tuple otherwise; for the
  three known functions the slave treats both alike, so \<open>Msg\<close> does not tell them
  apart.
\<close>

datatype reply =
    Msg msg
  | Unknown_list string
  | Unknown_tuple "string list"
  | Unindexable

text \<open>
  The slave's only variable that lives across iterations is \<^verbatim>\<open>logbook\<close>. The
  other two fields record its effects on the outside: the lines it prints, and the
  jobs it runs (the calls of \<^verbatim>\<open>load_xyts\<close>, \<^verbatim>\<open>load_xyts_ts\<close> and
  \<^verbatim>\<open>timeslice\<close>, which are assumed to return).
\<close>

record slave =
  logbook :: "log_entry list"
  stdout :: "string list"
  calls :: "msg list"

text \<open>
  Python's \<^verbatim>\<open>'Slave recieved unknown task to complete: %s.' % (task)\<close>.
  The parentheses do not make a tuple, so a \<^verbatim>\<open>task\<close> that is itself a tuple is
  taken as the tuple of arguments: with one item the item is printed, with any other
  number of items the operator raises \<^verbatim>\<open>TypeError\<close>.
\<close>

definition unknown_task_line :: "reply \<Rightarrow> error + string" where
  "unknown_task_line task =
     (case task of
        Unknown_list x \<Rightarrow> Inr (''Slave recieved unknown task to complete: '' @ x @ ''.'')
      | Unknown_tuple xs \<Rightarrow>
          (case xs of
             [x] \<Rightarrow> Inr (''Slave recieved unknown task to complete: '' @ x @ ''.'')
           | _ \<Rightarrow> Inl TypeError)
      | _ \<Rightarrow> Inl TypeError)"

text \<open>
  The body of the slave's \<^verbatim>\<open>for\<close> loop (lines 563--576) for the reply
  \<open>task\<close>, with \<open>d\<close> the time the clock shows to have passed. \<^verbatim>\<open>task[0]\<close>
  raises \<^verbatim>\<open>TypeError\<close> on an object that cannot be indexed (the class
  \<^verbatim>\<open>StopIteration\<close> is one) and \<^verbatim>\<open>IndexError\<close> on an empty tuple.
\<close>

definition slave_body :: "reply \<Rightarrow> duration \<Rightarrow> slave \<Rightarrow> error + slave" where
  "slave_body task d sl =
     (case task of
        Msg PyNone \<Rightarrow> Inr (sl\<lparr>logbook := logbook sl @ [Tuple2 ''sleep'' d]\<rparr>)
      | Msg StopIteration \<Rightarrow> Inl TypeError
      | Msg Load_xyts \<Rightarrow> Inr (sl\<lparr>calls := calls sl @ [Load_xyts]\<rparr>)
      | Msg (Load_xyts_ts i n) \<Rightarrow> Inr (sl\<lparr>calls := calls sl @ [Load_xyts_ts i n]\<rparr>)
      | Msg (Timeslice p) \<Rightarrow>
          Inr (sl\<lparr>calls := calls sl @ [Timeslice p],
                 logbook := logbook sl @ [Tuple3 ''timeslice'' p d]\<rparr>)
      | Unindexable \<Rightarrow> Inl TypeError
      | Unknown_tuple [] \<Rightarrow> Inl IndexError
      | _ \<Rightarrow>
          (case unknown_task_line task of
             Inl e \<Rightarrow> Inl e
           | Inr line \<Rightarrow> Inr (sl\<lparr>stdout := stdout sl @ [line]\<rparr>)))"

text \<open>
  The loop \<^verbatim>\<open>for task in iter(lambda: comm.sendrecv(None, dest = MASTER),
  StopIteration)\<close> over the replies the slave gets, each with its measured duration.
  The result says whether the loop has ended (the sentinel came) or the slave is
  still waiting for a reply.
\<close>

fun slave_loop :: "(reply \<times> duration) list \<Rightarrow> slave \<Rightarrow> error + bool \<times> slave" where
  "slave_loop [] sl = Inr (False, sl)"
| "slave_loop ((task, d) # rest) sl =
     (if task = Msg StopIteration then Inr (True, sl)
      else case slave_body task d sl of
        Inl e \<Rightarrow> Inl e
      | Inr sl' \<Rightarrow> slave_loop rest sl')"

definition slave0 :: slave where
  "slave0 = \<lparr>logbook = [], stdout = [], calls = []\<rparr>"

text \<open>
  Line 579: a slave that has left its loop passes its logbook to
  \<^verbatim>\<open>comm.gather\<close>. The result is \<open>None\<close> for a slave that has not got there.
\<close>

definition slave_report :: "(reply \<times> duration) list \<Rightarrow> log_entry list option" where
  "slave_report rs =
     (case slave_loop rs slave0 of
        Inr (True, sl) \<Rightarrow> Some (logbook sl)
      | _ \<Rightarrow> None)"

subsection \<open>Master and slaves together\<close>

text \<open>
  The replies to one slave, each with the duration the slave measures in that pass
  through its loop: \<open>d k\<close> is the time its clock shows for the \<open>k\<close>-th pass.
\<close>

definition timed :: "(nat \<Rightarrow> duration) \<Rightarrow> msg list \<Rightarrow> (reply \<times> duration) list" where
  "timed d ms = map (\<lambda>k. (Msg (ms ! k), d k)) [0..<length ms]"

text \<open>
  The collective \<^verbatim>\<open>gather\<close> over the \<open>n\<close> slaves of the communicator, given the
  master's sends so far: it returns, in rank order, what each slave passes as
  \<^verbatim>\<open>sendobj\<close>, and it cannot return (\<open>None\<close>) before every slave has called
  it.
\<close>

definition gather :: "nat \<Rightarrow> (nat \<Rightarrow> nat \<Rightarrow> duration) \<Rightarrow> event list \<Rightarrow> log_entry list list option" where
  "gather n d evs = those (map (\<lambda>w. slave_report (timed (d w) (replies w evs))) [0..<n])"

text \<open>
  Where the master is when the requests \<open>ws\<close> have been served: blocked in
  \<^verbatim>\<open>comm.recv\<close> inside the loop, blocked in \<^verbatim>\<open>comm.gather\<close>, or past
  \<^verbatim>\<open>comm.Disconnect()\<close> (lines 508--511).
\<close>

datatype outcome = Receiving master | Gathering master | Exited master

definition master_main :: "args \<Rightarrow> (nat \<Rightarrow> nat \<Rightarrow> duration) \<Rightarrow> nat list \<Rightarrow> error + outcome" where
  "master_main a d ws =
     (case run a ws of
        Inl e \<Rightarrow> Inl e
      | Inr s \<Rightarrow>
          if nproc s \<noteq> 0 then Inr (Receiving s)
          else (case gather (nprocs a) d (comm_log s) of
                  None \<Rightarrow> Inr (Gathering s)
                | Some reports \<Rightarrow>
                    Inr (Exited (s\<lparr>comm_log := comm_log s @ [Gather reports, Disconnect]\<rparr>))))"

text \<open>
  The log a slave has written after the given replies: one pair for every
  \<^verbatim>\<open>None\<close>, one triple for every \<^verbatim>\<open>timeslice\<close> job, nothing for the other
  jobs.
\<close>

fun log_of :: "(reply \<times> duration) list \<Rightarrow> log_entry list" where
  "log_of [] = []"
| "log_of ((Msg PyNone, d) # rs) = Tuple2 ''sleep'' d # log_of rs"
| "log_of ((Msg (Timeslice p), d) # rs) = Tuple3 ''timeslice'' p d # log_of rs"
| "log_of (r # rs) = log_of rs"

text \<open>A log entry of the shape (kind, duration).\<close>

fun kind_duration :: "log_entry \<Rightarrow> bool" where
  "kind_duration (Tuple2 k d) = True"
| "kind_duration (Tuple3 k p d) = False"

text \<open>
  The replies \<open>ms\<close> sent to a slave so far agree with its slot: a slot holding
  \<open>StopIteration\<close> means that the last reply, and no other, was
  \<open>StopIteration\<close>; any other slot means that no reply was.
\<close>

definition stopped_ok :: "msg list \<Rightarrow> msg \<Rightarrow> bool" where
  "stopped_ok ms slot \<longleftrightarrow>
     (if slot = StopIteration then \<exists>pre. ms = pre @ [StopIteration] \<and> StopIteration \<notin> set pre
      else StopIteration \<notin> set ms)"

definition tr_inv :: "master \<Rightarrow> bool" where
  "tr_inv s \<longleftrightarrow>
     (\<forall>w < length (in_progress s). stopped_ok (replies w (comm_log s)) (in_progress s ! w)) \<and>
     (\<forall>w \<ge> length (in_progress s). replies w (comm_log s) = []) \<and>
     (\<forall>e \<in> set (comm_log s). \<exists>w m. e = Send w m)"

subsection \<open>Schedules and progress\<close>

text \<open>
  A bound on the work that a message still stands for: a job in a slot has to be
  reported done (one request), a job in the list has to be handed out first, and a
  generator job stands for the jobs it will add as well, at most \<open>frames_sr\<close>
  for \<^verbatim>\<open>load_xyts_ts\<close> and \<open>nprocs\<close> for \<^verbatim>\<open>load_xyts\<close>.
\<close>

fun cost_slot :: "args \<Rightarrow> msg \<Rightarrow> nat" where
  "cost_slot a (Timeslice p) = 1"
| "cost_slot a (Load_xyts_ts i n) = 1 + 2 * nat (frames_sr a)"
| "cost_slot a Load_xyts = 1 + nprocs a * (2 + 2 * nat (frames_sr a))"
| "cost_slot a m = 0"

definition cost_list :: "args \<Rightarrow> msg \<Rightarrow> nat" where
  "cost_list a m = (if is_job m then cost_slot a m + 1 else 0)"

text \<open>The work left in a state of the master, counting one for every slave to stop.\<close>

definition work_left :: "args \<Rightarrow> master \<Rightarrow> nat" where
  "work_left a s = sum_list (map (cost_list a) (msg_list s))
                 + sum_list (map (cost_slot a) (in_progress s)) + nproc s"

text \<open>
  A schedule \<open>\<sigma>\<close> names the slave whose turn it is at each moment. A slave
  whose turn it is and that is still in its loop has finished what it was handed
  (jobs return: no slave crashes) and its request reaches the master while the
  master's loop runs; the turn of a slave that has left its loop, or of a rank
  outside the pool, changes nothing. \<open>turns a \<sigma> n\<close> is the master after the
  first \<open>n\<close> turns. A schedule is fair when the turn of every slave comes again
  and again.
\<close>

definition turn :: "args \<Rightarrow> nat \<Rightarrow> master \<Rightarrow> error + master" where
  "turn a w s =
     (if nproc s \<noteq> 0 \<and> w < length (in_progress s) \<and> in_progress s ! w \<noteq> StopIteration
      then iteration a w s else Inr s)"

primrec turns :: "args \<Rightarrow> (nat \<Rightarrow> nat) \<Rightarrow> nat \<Rightarrow> error + master" where
  "turns a \<sigma> 0 = initial a"
| "turns a \<sigma> (Suc n) = (case turns a \<sigma> n of Inl e \<Rightarrow> Inl e | Inr s \<Rightarrow> turn a (\<sigma> n) s)"

definition fair :: "nat \<Rightarrow> (nat \<Rightarrow> nat) \<Rightarrow> bool" where
  "fair W \<sigma> \<longleftrightarrow> (\<forall>w < W. \<forall>n. \<exists>m \<ge> n. \<sigma> m = w)"

text \<open>
  A request of slave \<open>v\<close> would change the master's state: the slave is still in
  its loop, and it is not the case that its slot is empty, the list is empty and a
  dependency is open (then the request is answered with \<open>PyNone\<close> and nothing
  else happens).
\<close>

definition not_idle :: "master \<Rightarrow> nat \<Rightarrow> bool" where
  "not_idle s v \<longleftrightarrow>
     v < length (in_progress s) \<and> in_progress s ! v \<noteq> StopIteration \<and>
     \<not> (in_progress s ! v = PyNone \<and> msg_list s = [] \<and> msg_deps s \<noteq> 0)"

subsection \<open>Example inputs\<close>

text \<open>A still image (no animation, no XYTS file) rendered by one slave.\<close>

definition still1 :: args where
  "still1 = \<lparr>animate = False, has_xyts = False, nprocs = 1, frames0 = 0, t_frames = 0,
     frames_sr = 3, nt = 0, xpos = (\<lambda>i. int i)\<rparr>"

text \<open>The still image run once the only slave has been handed the only job.\<close>

definition still1_busy :: master where
  "still1_busy = \<lparr>msg_list = [], msg_deps = 0, nproc = 1,
     in_progress = [Timeslice (Params None None)],
     comm_log = [Send 0 (Timeslice (Params None None))]\<rparr>"

text \<open>An animation with an XYTS file on two slaves: two opening frames, two fade-out
  frames, three dynamic frames, four timeslices in the file, and dynamic frame \<open>i\<close>
  showing timeslice \<open>i\<close>.
\<close>

definition anim2 :: args where
  "anim2 = \<lparr>animate = True, has_xyts = True, nprocs = 2, frames0 = 2, t_frames = 2,
     frames_sr = 3, nt = 4, xpos = (\<lambda>i. int i)\<rparr>"

text \<open>The same run once slave 0 has been handed \<^verbatim>\<open>load_xyts\<close>.\<close>

definition anim2_prep :: master where
  "anim2_prep = \<lparr>msg_list = [Timeslice (Params (Some 0) None),
       Timeslice (Params (Some 1) None), Timeslice (Params (Some 2) None),
       Timeslice (Params (Some 3) None)],
     msg_deps = 1, nproc = 2, in_progress = [Load_xyts, PyNone],
     comm_log = [Send 0 Load_xyts]\<rparr>"

text \<open>
  An animation with an XYTS file on one slave, started with \<^verbatim>\<open>-t 0 -m 0\<close>: no
  opening and no fade-out frames, so \<^verbatim>\<open>meta['t_frames']\<close> is \<open>0\<close> and the
  set-up loops do not run.
\<close>

definition anim0 :: args where
  "anim0 = \<lparr>animate = True, has_xyts = True, nprocs = 1, frames0 = 0, t_frames = 0,
     frames_sr = 3, nt = 4, xpos = (\<lambda>i. int i)\<rparr>"

text \<open>
  An animation without an XYTS file on three slaves: five opening frames and five
  fade-out frames, so ten \<^verbatim>\<open>timeslice\<close> jobs and no dependency.
\<close>

definition anim10 :: args where
  "anim10 = \<lparr>animate = True, has_xyts = False, nprocs = 3, frames0 = 5, t_frames = 5,
     frames_sr = 0, nt = 0, xpos = (\<lambda>i. int i)\<rparr>"

section \<open>Properties\<close>

subsection \<open>Lists and ranges\<close>

lemma filter_update_count:
  assumes "w < length xs"
  shows "length (filter P (xs[w := m])) + (if P (xs ! w) then 1 else 0)
       = length (filter P xs) + (if P m then 1 else 0)"
proof -
  have a: "xs = take w xs @ xs ! w # drop (Suc w) xs"
    using assms by (rule id_take_nth_drop)
  have "length (filter P xs) = length (filter P (take w xs @ xs ! w # drop (Suc w) xs))"
    using a by simp
  then have b: "length (filter P xs)
      = length (filter P (take w xs)) + (if P (xs ! w) then 1 else 0)
        + length (filter P (drop (Suc w) xs))"
    by simp
  have "xs[w := m] = take w xs @ m # drop (Suc w) xs"
    using assms by (rule upd_conv_take_nth_drop)
  then have "length (filter P (xs[w := m]))
      = length (filter P (take w xs)) + (if P m then 1 else 0)
        + length (filter P (drop (Suc w) xs))"
    by simp
  with b show ?thesis by simp
qed

lemma in_set_update: "m \<in> set (xs[w := v]) \<Longrightarrow> m = v \<or> m \<in> set xs"
  using set_update_subset_insert [of xs w v] by auto

text \<open>Membership in a range with a positive step.\<close>

lemma py_range_mem:
  assumes "0 < k"
  shows "x \<in> set (py_range a b k) \<longleftrightarrow> a \<le> x \<and> x < b \<and> (x - a) mod int k = 0"
proof
  have kpos: "0 < int k" using assms by simp
  assume "x \<in> set (py_range a b k)"
  then obtain j where j: "j < nat ((b - a + int k - 1) div int k)" and x: "x = a + int j * int k"
    unfolding py_range_def by auto
  from j have "int j + 1 \<le> (b - a + int k - 1) div int k" by linarith
  then have "(int j + 1) * int k \<le> ((b - a + int k - 1) div int k) * int k"
    using kpos by (simp add: mult_right_mono)
  also have "\<dots> \<le> b - a + int k - 1"
    using kpos div_mult_mod_eq [of "b - a + int k - 1" "int k"]
      pos_mod_sign [of "int k" "b - a + int k - 1"] by linarith
  finally have "int j * int k < b - a" by (simp add: algebra_simps)
  with x show "a \<le> x \<and> x < b \<and> (x - a) mod int k = 0" by simp
next
  have kpos: "0 < int k" using assms by simp
  assume h: "a \<le> x \<and> x < b \<and> (x - a) mod int k = 0"
  define d where "d = (x - a) div int k"
  have xa: "x - a = d * int k" using h by (auto simp: d_def)
  have nn: "0 \<le> d" using h kpos by (simp add: d_def pos_imp_zdiv_nonneg_iff)
  have "(d + 1) * int k \<le> b - a + int k - 1"
    using xa h by (simp add: algebra_simps)
  then have "((d + 1) * int k) div int k \<le> (b - a + int k - 1) div int k"
    by (rule zdiv_mono1) (rule kpos)
  then have "d + 1 \<le> (b - a + int k - 1) div int k"
    using kpos by simp
  then have "nat d < nat ((b - a + int k - 1) div int k)" using nn by linarith
  then have "nat d \<in> set [0..<nat ((b - a + int k - 1) div int k)]" by simp
  then have "a + int (nat d) * int k \<in> set (py_range a b k)"
    unfolding py_range_def set_map by (rule imageI)
  moreover have "x = a + int (nat d) * int k" using xa nn by simp
  ultimately show "x \<in> set (py_range a b k)" by simp
qed

subsection \<open>The frame loop\<close>

lemma ready_frames_Inr:
  "ready_frames a r xs q = Inr q' \<Longrightarrow>
   q' = q @ map (frame_job a) (filter (\<lambda>i. xpos a i \<in> set r) xs)"
proof (induction xs arbitrary: q)
  case Nil
  then show ?case by simp
next
  case (Cons i xs)
  show ?case
  proof (cases "xpos a i \<in> set r")
    case True
    with Cons.prems have ok: "t_frames a \<noteq> 0" "animate a"
      by (auto split: if_splits)
    with True Cons.prems have "ready_frames a r xs (q @ [frame_job a i]) = Inr q'"
      by (simp add: frame_job_def)
    from Cons.IH [OF this] True show ?thesis by simp
  next
    case False
    with Cons.prems have "ready_frames a r xs q = Inr q'" by simp
    from Cons.IH [OF this] False show ?thesis by simp
  qed
qed

lemma ready_frames_ok:
  "t_frames a \<noteq> 0 \<Longrightarrow> animate a \<Longrightarrow>
   ready_frames a r xs q = Inr (q @ map (frame_job a) (filter (\<lambda>i. xpos a i \<in> set r) xs))"
  by (induction xs arbitrary: q) (auto simp: frame_job_def)

lemma ready_frames_none:
  "\<forall>i \<in> set xs. xpos a i \<notin> set r \<Longrightarrow> ready_frames a r xs q = Inr q"
  by (induction xs arbitrary: q) auto

lemma ready_frames_Inl:
  "ready_frames a r xs q = Inl e \<Longrightarrow>
   (\<exists>i \<in> set xs. xpos a i \<in> set r) \<and>
   (e = ZeroDivisionError \<and> t_frames a = 0 \<or> e = NameError \<and> \<not> animate a)"
  by (induction xs arbitrary: q) (auto split: if_splits)

subsection \<open>What one iteration does\<close>

lemma filter_gen_shards:
  "filter gen (map (\<lambda>i. Load_xyts_ts i k) xs) = map (\<lambda>i. Load_xyts_ts i k) xs"
  by (induction xs) auto

lemma filter_gen_frames: "filter gen (map (frame_job a) xs) = []"
  by (induction xs) (auto simp: frame_job_def)

lemma resolve_char:
  assumes "resolve a w s = Inr s1"
  obtains new where
    "w < length (in_progress s)" and "in_progress s ! w \<noteq> StopIteration"
    and "msg_list s1 = msg_list s @ new"
    and "msg_deps s1 = msg_deps s - (if gen (in_progress s ! w) then 1 else 0)
                         + int (length (filter gen new))"
    and "in_progress s1 = in_progress s" and "nproc s1 = nproc s"
    and "\<forall>m \<in> set new. is_job m"
    and "new \<noteq> [] \<longrightarrow> gen (in_progress s ! w)"
    and "\<forall>i n. Load_xyts_ts i n \<in> set new \<longrightarrow> n = nproc s \<and> i < n"
proof -
  from assms have w: "w < length (in_progress s)"
    by (auto simp: resolve_def split: if_splits)
  show thesis
  proof (cases "in_progress s ! w")
    case PyNone
    with assms w have "s1 = s" by (simp add: resolve_def)
    with w PyNone show thesis by (intro that [of "[]"]) simp_all
  next
    case StopIteration
    with assms w show thesis by (simp add: resolve_def)
  next
    case Load_xyts
    with assms w have "s1 = s\<lparr>msg_deps := msg_deps s - 1 + int (nproc s),
        msg_list := msg_list s @ map (\<lambda>i. Load_xyts_ts i (nproc s)) [0..<nproc s]\<rparr>"
      by (simp add: resolve_def)
    with w Load_xyts show thesis
      by (intro that [of "map (\<lambda>i. Load_xyts_ts i (nproc s)) [0..<nproc s]"])
         (auto simp: filter_gen_shards)
  next
    case (Load_xyts_ts i n)
    with assms w obtain q where q: "ready_frames a (py_range (int i) (nt a) (nproc s))
                       [0..<nat (frames_sr a)] (msg_list s) = Inr q"
       and s1: "s1 = s\<lparr>msg_list := q, msg_deps := msg_deps s - 1\<rparr>"
      by (auto simp: resolve_def split: if_splits sum.splits)
    from ready_frames_Inr [OF q] obtain js where qq: "q = msg_list s @ map (frame_job a) js"
      by blast
    have j: "\<forall>m \<in> set (map (frame_job a) js). is_job m" by (simp add: frame_job_def)
    have k: "\<forall>i n. Load_xyts_ts i n \<notin> set (map (frame_job a) js)" by (auto simp: frame_job_def)
    from w Load_xyts_ts s1 qq j k show thesis
      by (intro that [of "map (frame_job a) js"]) (simp_all add: filter_gen_frames)
  next
    case (Timeslice p)
    with assms w have "s1 = s" by (simp add: resolve_def)
    with w Timeslice show thesis by (intro that [of "[]"]) simp_all
  qed
qed

lemma iteration_char:
  assumes "iteration a w s = Inr s'"
  obtains s1 m where "resolve a w s = Inr s1"
    and "msg_deps s' = msg_deps s1"
    and "in_progress s' = (in_progress s)[w := m]"
    and "comm_log s' = comm_log s @ [Send w m]"
    and "(msg_list s1 = m # msg_list s' \<and> nproc s' = nproc s)
       \<or> (msg_list s1 = [] \<and> msg_deps s1 = 0 \<and> m = StopIteration \<and> msg_list s' = []
            \<and> nproc s' = nproc s - 1)
       \<or> (msg_list s1 = [] \<and> msg_deps s1 \<noteq> 0 \<and> m = PyNone \<and> msg_list s' = []
            \<and> nproc s' = nproc s)"
proof -
  from assms obtain s1 where r: "resolve a w s = Inr s1"
    and n: "next_job w (stop_or_wait s1) = Inr s'"
    by (auto simp: iteration_def split: sum.splits)
  from r have k: "in_progress s1 = in_progress s" "nproc s1 = nproc s" "comm_log s1 = comm_log s"
    by (auto simp: resolve_def split: if_splits msg.splits sum.splits)
  from n obtain m rest where h: "msg_list (stop_or_wait s1) = m # rest"
    and s': "s' = (stop_or_wait s1)\<lparr>msg_list := rest,
            comm_log := comm_log (stop_or_wait s1) @ [Send w m],
            in_progress := (in_progress (stop_or_wait s1))[w := m]\<rparr>"
    by (auto simp: next_job_def split: list.splits if_splits)
  have 1: "msg_deps s' = msg_deps s1" by (subst s') (simp add: stop_or_wait_def)
  have 2: "in_progress s' = (in_progress s)[w := m]"
    by (subst s') (simp add: stop_or_wait_def k)
  have 3: "comm_log s' = comm_log s @ [Send w m]"
    by (subst s') (simp add: stop_or_wait_def k)
  have 4: "msg_list s' = rest" by (subst s') simp
  have 5: "nproc s' = nproc (stop_or_wait s1)" by (subst s') simp
  have "(msg_list s1 = m # msg_list s' \<and> nproc s' = nproc s)
       \<or> (msg_list s1 = [] \<and> msg_deps s1 = 0 \<and> m = StopIteration \<and> msg_list s' = []
            \<and> nproc s' = nproc s - 1)
       \<or> (msg_list s1 = [] \<and> msg_deps s1 \<noteq> 0 \<and> m = PyNone \<and> msg_list s' = []
            \<and> nproc s' = nproc s)"
    using h unfolding 4 5 by (auto simp: stop_or_wait_def k split: if_splits)
  with r 1 2 3 show thesis by (rule that)
qed

subsection \<open>The invariant holds in every reachable state\<close>

lemma inv_initial: "initial a = Inr s \<Longrightarrow> inv a s"
  by (auto simp: initial_def inv_def split: if_splits)

lemma invD:
  assumes "inv a s"
  shows "length (in_progress s) = nprocs a"
    and "msg_deps s = int (length (filter gen (msg_list s)) + length (filter gen (in_progress s)))"
    and "\<forall>m \<in> set (msg_list s). is_job m"
    and "nproc s = length (filter (\<lambda>m. m \<noteq> StopIteration) (in_progress s))"
    and "(\<exists>m \<in> set (msg_list s) \<union> set (in_progress s). gen m) \<longrightarrow>
        nproc s = nprocs a \<and> animate a \<and> has_xyts a"
    and "\<forall>m \<in> set (msg_list s) \<union> set (in_progress s). \<forall>i n.
        m = Load_xyts_ts i n \<longrightarrow> n = nprocs a \<and> i < n"
  using assms unfolding inv_def by - (elim conjE, assumption)+

lemma invI:
  assumes "length (in_progress s) = nprocs a"
    and "msg_deps s = int (length (filter gen (msg_list s)) + length (filter gen (in_progress s)))"
    and "\<forall>m \<in> set (msg_list s). is_job m"
    and "nproc s = length (filter (\<lambda>m. m \<noteq> StopIteration) (in_progress s))"
    and "(\<exists>m \<in> set (msg_list s) \<union> set (in_progress s). gen m) \<longrightarrow>
        nproc s = nprocs a \<and> animate a \<and> has_xyts a"
    and "\<forall>m \<in> set (msg_list s) \<union> set (in_progress s). \<forall>i n.
        m = Load_xyts_ts i n \<longrightarrow> n = nprocs a \<and> i < n"
  shows "inv a s"
  unfolding inv_def using assms by - (intro conjI, assumption+)

lemma inv_iteration:
  assumes I: "inv a s" and it: "iteration a w s = Inr s'"
  shows "inv a s'"
proof -
  from it obtain s1 m where r: "resolve a w s = Inr s1"
    and d': "msg_deps s' = msg_deps s1"
    and p': "in_progress s' = (in_progress s)[w := m]"
    and c: "(msg_list s1 = m # msg_list s' \<and> nproc s' = nproc s)
       \<or> (msg_list s1 = [] \<and> msg_deps s1 = 0 \<and> m = StopIteration \<and> msg_list s' = []
            \<and> nproc s' = nproc s - 1)
       \<or> (msg_list s1 = [] \<and> msg_deps s1 \<noteq> 0 \<and> m = PyNone \<and> msg_list s' = []
            \<and> nproc s' = nproc s)"
    by (rule iteration_char)
  from r obtain new where w: "w < length (in_progress s)"
    and f: "in_progress s ! w \<noteq> StopIteration"
    and q1: "msg_list s1 = msg_list s @ new"
    and d1: "msg_deps s1 = msg_deps s - (if gen (in_progress s ! w) then 1 else 0)
                         + int (length (filter gen new))"
    and nj: "\<forall>m \<in> set new. is_job m"
    and ng: "new \<noteq> [] \<longrightarrow> gen (in_progress s ! w)"
    and nk: "\<forall>i n. Load_xyts_ts i n \<in> set new \<longrightarrow> n = nproc s \<and> i < n"
    by (rule resolve_char)
  note I1 = invD(1) [OF I] and I2 = invD(2) [OF I] and I3 = invD(3) [OF I]
    and I4 = invD(4) [OF I] and I5 = invD(5) [OF I] and I6 = invD(6) [OF I]
  have fin: "in_progress s ! w \<in> set (in_progress s)" using w by simp
  define bf :: nat where "bf = (if gen (in_progress s ! w) then 1 else 0)"
  define bm :: nat where "bm = (if gen m then 1 else 0)"
  have cg: "length (filter gen (in_progress s')) + bf = length (filter gen (in_progress s)) + bm"
    unfolding p' bf_def bm_def by (rule filter_update_count [OF w])
  have cs: "length (filter (\<lambda>m. m \<noteq> StopIteration) (in_progress s')) + 1
      = length (filter (\<lambda>m. m \<noteq> StopIteration) (in_progress s)) + (if m \<noteq> StopIteration then 1 else 0)"
    unfolding p' using filter_update_count [OF w, of "\<lambda>m. m \<noteq> StopIteration" m] f by simp
  have sub1: "set (msg_list s') \<subseteq> set (msg_list s1)" using c by auto
  have sub: "set (msg_list s') \<subseteq> set (msg_list s) \<union> set new"
    using sub1 unfolding q1 by simp
  have min1: "is_job m \<longrightarrow> m \<in> set (msg_list s1)" using c by auto
  have min: "is_job m \<longrightarrow> m \<in> set (msg_list s) \<union> set new"
    using min1 unfolding q1 by simp
  have gm: "gen m \<longrightarrow> is_job m" by (cases m) simp_all
  have newgen: "\<And>g. g \<in> set new \<Longrightarrow> \<exists>h \<in> set (in_progress s). gen h"
    using ng fin by fastforce
  have mem': "\<And>g. g \<in> set (msg_list s') \<union> set (in_progress s') \<Longrightarrow> is_job g \<Longrightarrow>
      g \<in> set (msg_list s) \<union> set (in_progress s) \<or> g \<in> set new"
  proof -
    fix g assume g: "g \<in> set (msg_list s') \<union> set (in_progress s')" and j: "is_job g"
    from g have "g \<in> set (msg_list s') \<or> g \<in> set (in_progress s')" by simp
    then show "g \<in> set (msg_list s) \<union> set (in_progress s) \<or> g \<in> set new"
    proof
      assume "g \<in> set (msg_list s')" with sub show ?thesis by blast
    next
      assume "g \<in> set (in_progress s')"
      then have "g = m \<or> g \<in> set (in_progress s)" unfolding p' by (rule in_set_update)
      with j min show ?thesis by blast
    qed
  qed
  have oldgen: "(\<exists>g \<in> set (msg_list s') \<union> set (in_progress s'). gen g)
      \<Longrightarrow> (\<exists>g \<in> set (msg_list s) \<union> set (in_progress s). gen g)"
  proof -
    assume "\<exists>g \<in> set (msg_list s') \<union> set (in_progress s'). gen g"
    then obtain g where g: "gen g" "g \<in> set (msg_list s') \<union> set (in_progress s')" by blast
    from g(1) have "is_job g" by (cases g) simp_all
    from mem' [OF g(2) this] show ?thesis
    proof
      assume "g \<in> set (msg_list s) \<union> set (in_progress s)" with g(1) show ?thesis by blast
    next
      assume "g \<in> set new" from newgen [OF this] show ?thesis by blast
    qed
  qed
  have J1: "length (in_progress s') = nprocs a" using I1 p' by simp
  have J3: "\<forall>m \<in> set (msg_list s'). is_job m" using sub I3 nj by blast
  have geq: "length (filter gen (msg_list s')) + bm
      = length (filter gen (msg_list s)) + length (filter gen new)"
  proof -
    from c have "msg_list s1 = m # msg_list s' \<or> (msg_list s1 = [] \<and> msg_list s' = [] \<and> \<not> gen m)"
      by auto
    then show ?thesis
    proof
      assume "msg_list s1 = m # msg_list s'"
      then have "filter gen (msg_list s @ new) = filter gen (m # msg_list s')" using q1 by simp
      then have "length (filter gen (msg_list s @ new)) = length (filter gen (m # msg_list s'))"
        by simp
      then show ?thesis by (simp add: bm_def)
    next
      assume "msg_list s1 = [] \<and> msg_list s' = [] \<and> \<not> gen m"
      with q1 show ?thesis by (simp add: bm_def)
    qed
  qed
  have d1': "msg_deps s1 = msg_deps s - int bf + int (length (filter gen new))"
    unfolding d1 bf_def by simp
  have J2: "msg_deps s' = int (length (filter gen (msg_list s')) + length (filter gen (in_progress s')))"
    unfolding d' d1' I2 using cg geq by linarith
  have nostop: "StopIteration \<notin> set (msg_list s1)"
    unfolding q1 using I3 nj by auto
  have J4: "nproc s' = length (filter (\<lambda>m. m \<noteq> StopIteration) (in_progress s'))"
  proof -
    from c have "(m \<noteq> StopIteration \<and> nproc s' = nproc s) \<or> (m = StopIteration \<and> nproc s' = nproc s - 1)"
      using nostop by (cases "m = StopIteration") auto
    then show ?thesis using cs I4 by auto
  qed
  have J5: "(\<exists>m \<in> set (msg_list s') \<union> set (in_progress s'). gen m) \<longrightarrow>
        nproc s' = nprocs a \<and> animate a \<and> has_xyts a"
  proof
    assume e: "\<exists>m \<in> set (msg_list s') \<union> set (in_progress s'). gen m"
    from oldgen [OF e] I5 have o: "nproc s = nprocs a" "animate a" "has_xyts a" by simp_all
    from e obtain g where g: "gen g" "g \<in> set (msg_list s') \<or> g \<in> set (in_progress s')" by auto
    then have "filter gen (msg_list s') \<noteq> [] \<or> filter gen (in_progress s') \<noteq> []"
      by (auto simp: filter_empty_conv)
    then have "0 < length (filter gen (msg_list s')) + length (filter gen (in_progress s'))"
      by auto
    with J2 have "msg_deps s' \<noteq> 0" by linarith
    with c d' have "nproc s' = nproc s" by auto
    with o show "nproc s' = nprocs a \<and> animate a \<and> has_xyts a" by simp
  qed
  have J6: "\<forall>x \<in> set (msg_list s') \<union> set (in_progress s'). \<forall>i n.
        x = Load_xyts_ts i n \<longrightarrow> n = nprocs a \<and> i < n"
  proof (intro ballI allI impI)
    fix x i n assume x: "x \<in> set (msg_list s') \<union> set (in_progress s')" and e: "x = Load_xyts_ts i n"
    have "is_job x" using e by simp
    from mem' [OF x this] show "n = nprocs a \<and> i < n"
    proof
      assume "x \<in> set (msg_list s) \<union> set (in_progress s)"
      with I6 e show ?thesis by blast
    next
      assume xn: "x \<in> set new"
      from newgen [OF this] I5 have "nproc s = nprocs a" by blast
      with nk xn e show ?thesis by auto
    qed
  qed
  from J1 J2 J3 J4 J5 J6 show ?thesis by (rule invI)
qed

lemma reachable_inv: "reachable a s \<Longrightarrow> inv a s"
  by (induction rule: reachable.induct) (auto intro: inv_initial inv_iteration)

lemma resolve_deps:
  assumes I: "inv a s" and r: "resolve a w s = Inr s1"
  shows "msg_deps s1 = int (length (filter gen (msg_list s1))
                            + length (filter gen ((in_progress s)[w := PyNone])))"
    and "gen (in_progress s ! w) \<longrightarrow> 1 \<le> msg_deps s"
proof -
  from r obtain new where w: "w < length (in_progress s)"
    and q1: "msg_list s1 = msg_list s @ new"
    and d1: "msg_deps s1 = msg_deps s - (if gen (in_progress s ! w) then 1 else 0)
                         + int (length (filter gen new))"
    by (rule resolve_char)
  note I2 = invD(2) [OF I]
  define bf :: nat where "bf = (if gen (in_progress s ! w) then 1 else 0)"
  have cg: "length (filter gen ((in_progress s)[w := PyNone])) + bf
      = length (filter gen (in_progress s))"
    unfolding bf_def using filter_update_count [OF w, of gen PyNone] by simp
  have d1': "msg_deps s1 = msg_deps s - int bf + int (length (filter gen new))"
    unfolding d1 bf_def by simp
  show "msg_deps s1 = int (length (filter gen (msg_list s1))
                            + length (filter gen ((in_progress s)[w := PyNone])))"
    unfolding d1' I2 q1 using cg by simp
  show "gen (in_progress s ! w) \<longrightarrow> 1 \<le> msg_deps s"
    unfolding I2 using cg by (simp add: bf_def split: if_splits)
qed

lemma count_zero_iff: "int (length (filter P xs) + length (filter P ys)) = 0
    \<longleftrightarrow> \<not> (\<exists>m \<in> set xs \<union> set ys. P m)"
proof -
  have "int (length (filter P xs) + length (filter P ys)) = 0
      \<longleftrightarrow> filter P xs = [] \<and> filter P ys = []"
    by (simp only: of_nat_eq_0_iff add_is_0 length_0_conv)
  also have "\<dots> \<longleftrightarrow> \<not> (\<exists>m \<in> set xs \<union> set ys. P m)"
    by (auto simp: filter_empty_conv)
  finally show ?thesis .
qed

lemma master_loop_reachable:
  "reachable a s \<Longrightarrow> master_loop a ws s = Inr s' \<Longrightarrow> reachable a s'"
proof (induction ws arbitrary: s)
  case Nil
  then show ?case by simp
next
  case (Cons w ws)
  show ?case
  proof (cases "nproc s = 0")
    case True
    with Cons.prems show ?thesis by simp
  next
    case False
    with Cons.prems obtain t where t: "iteration a w s = Inr t" and l: "master_loop a ws t = Inr s'"
      by (auto split: sum.splits)
    from Cons.prems(1) False t have "reachable a t" by (rule reachable.step)
    from Cons.IH [OF this l] show ?thesis .
  qed
qed

lemma run_reachable: "run a ws = Inr s \<Longrightarrow> reachable a s"
  unfolding run_def
  by (auto split: sum.splits intro: master_loop_reachable reachable.start)

lemma disjoint_ranges:
  assumes "i < k" and "j < k" and "i \<noteq> j"
  shows "set (py_range (int i) b k) \<inter> set (py_range (int j) b k) = {}"
proof -
  have k: "0 < k" using assms by simp
  { fix x assume "x \<in> set (py_range (int i) b k)" and "x \<in> set (py_range (int j) b k)"
    then have a: "(x - int i) mod int k = 0" and b: "(x - int j) mod int k = 0"
      and xi: "int i \<le> x" and xj: "int j \<le> x"
      using py_range_mem [OF k] by blast+
    from a have "x mod int k = int i mod int k"
      by (metis diff_add_cancel mod_add_left_eq add_0)
    moreover from b have "x mod int k = int j mod int k"
      by (metis diff_add_cancel mod_add_left_eq add_0)
    ultimately have "int i mod int k = int j mod int k" by simp
    with assms have False by simp }
  then show ?thesis by blast
qed

lemma anim2_prep_reachable: "reachable anim2 anim2_prep"
proof -
  have "run anim2 [0] = Inr anim2_prep"
    by (simp add: run_def initial_def anim2_def anim2_prep_def iteration_def resolve_def
        stop_or_wait_def next_job_def upt_conv_Cons numeral_2_eq_2)
  then show ?thesis by (rule run_reachable)
qed

lemma residue_class:
  assumes "0 \<le> i" and "i < k"
  shows "(i \<le> x \<and> (x - i) mod k = 0) \<longleftrightarrow> (0 \<le> x \<and> x mod k = (i::int))"
proof
  assume h: "i \<le> x \<and> (x - i) mod k = 0"
  then have "x mod k = ((x - i) + i) mod k" by simp
  also have "\<dots> = ((x - i) mod k + i) mod k" by (simp only: mod_add_left_eq)
  also have "\<dots> = i" using h assms by simp
  finally show "0 \<le> x \<and> x mod k = i" using h assms by simp
next
  assume h: "0 \<le> x \<and> x mod k = i"
  have kpos: "0 < k" using assms by simp
  have "(x - i) mod k = (x mod k - i) mod k" by (simp only: mod_diff_left_eq)
  also have "\<dots> = 0" using h by simp
  finally have a: "(x - i) mod k = 0" .
  have "x mod k \<le> x" using h by (intro zmod_le_nonneg_dividend) simp
  with h a show "i \<le> x \<and> (x - i) mod k = 0" by simp
qed

lemma shard_done:
  assumes "reachable a s" and "w < length (in_progress s)"
    and "in_progress s ! w = Load_xyts_ts i n"
    and "t_frames a \<noteq> 0"
  shows "n = nprocs a \<and> i < n \<and> nproc s = nprocs a
    \<and> resolve a w s = Inr (s\<lparr>msg_list := msg_list s @ map (frame_job a)
            (filter (\<lambda>k. 0 \<le> xpos a k \<and> xpos a k < nt a \<and> xpos a k mod int (nprocs a) = int i)
               [0..<nat (frames_sr a)]),
          msg_deps := msg_deps s - 1\<rparr>)"
proof -
  from assms(1) have I: "inv a s" by (rule reachable_inv)
  have m: "Load_xyts_ts i n \<in> set (in_progress s)" using assms(2,3) by (metis nth_mem)
  then have "\<exists>m \<in> set (msg_list s) \<union> set (in_progress s). gen m"
    by (intro bexI [of _ "Load_xyts_ts i n"]) simp_all
  with invD(5) [OF I] have g: "nproc s = nprocs a" "animate a" "has_xyts a" by simp_all
  from invD(6) [OF I] m have k: "n = nprocs a" "i < n" by auto
  have pos: "0 < nprocs a" using k by simp
  have eq: "(\<lambda>k. xpos a k \<in> set (py_range (int i) (nt a) (nprocs a)))
      = (\<lambda>k. 0 \<le> xpos a k \<and> xpos a k < nt a \<and> xpos a k mod int (nprocs a) = int i)"
  proof
    fix j
    have "xpos a j \<in> set (py_range (int i) (nt a) (nprocs a))
        \<longleftrightarrow> (int i \<le> xpos a j \<and> (xpos a j - int i) mod int (nprocs a) = 0) \<and> xpos a j < nt a"
      unfolding py_range_mem [OF pos] by blast
    also have "\<dots> \<longleftrightarrow> (0 \<le> xpos a j \<and> xpos a j mod int (nprocs a) = int i) \<and> xpos a j < nt a"
      using residue_class [of "int i" "int (nprocs a)" "xpos a j"] k by simp
    finally show "xpos a j \<in> set (py_range (int i) (nt a) (nprocs a))
        \<longleftrightarrow> 0 \<le> xpos a j \<and> xpos a j < nt a \<and> xpos a j mod int (nprocs a) = int i"
      by blast
  qed
  have "resolve a w s = Inr (s\<lparr>msg_list := msg_list s @ map (frame_job a)
            (filter (\<lambda>k. xpos a k \<in> set (py_range (int i) (nt a) (nprocs a)))
               [0..<nat (frames_sr a)]),
          msg_deps := msg_deps s - 1\<rparr>)"
    using assms(2,3,4) g pos by (simp add: resolve_def ready_frames_ok)
  then show ?thesis unfolding eq using k g by simp
qed

lemma shard_done_empty:
  assumes "reachable a s" and "w < length (in_progress s)"
    and "in_progress s ! w = Load_xyts_ts i n"
    and "\<forall>k < nat (frames_sr a). xpos a k \<notin> set (py_range (int i) (nt a) (nproc s))"
  shows "resolve a w s = Inr (s\<lparr>msg_list := msg_list s, msg_deps := msg_deps s - 1\<rparr>)"
proof -
  from assms(1) have I: "inv a s" by (rule reachable_inv)
  have m: "Load_xyts_ts i n \<in> set (in_progress s)" using assms(2,3) by (metis nth_mem)
  then have "\<exists>m \<in> set (msg_list s) \<union> set (in_progress s). gen m"
    by (intro bexI [of _ "Load_xyts_ts i n"]) simp_all
  with invD(5) [OF I] have g: "nproc s = nprocs a" "has_xyts a" by simp_all
  from invD(6) [OF I] m have k: "n = nprocs a" "i < n" by auto
  have "ready_frames a (py_range (int i) (nt a) (nproc s)) [0..<nat (frames_sr a)] (msg_list s)
      = Inr (msg_list s)"
    using assms(4) by (intro ready_frames_none) simp
  then show ?thesis using assms(2,3) g k by (simp add: resolve_def)
qed

lemma still1_busy_reachable: "reachable still1 still1_busy"
proof -
  have "run still1 [0] = Inr still1_busy"
    by (simp add: run_def initial_def still1_def still1_busy_def iteration_def resolve_def
        stop_or_wait_def next_job_def)
  then show ?thesis by (rule run_reachable)
qed

subsection \<open>What has been sent to whom\<close>

lemma replies_append: "replies w (xs @ ys) = replies w xs @ replies w ys"
proof (induction xs)
  case Nil
  then show ?case by simp
next
  case (Cons e xs)
  then show ?case by (cases e) simp_all
qed

lemma tr_inv_initial: "initial a = Inr s \<Longrightarrow> tr_inv s"
  by (auto simp: initial_def tr_inv_def stopped_ok_def split: if_splits)

lemma tr_inv_iteration:
  assumes T: "tr_inv s" and it: "iteration a v s = Inr s'"
  shows "tr_inv s'"
proof -
  from it obtain s1 m where r: "resolve a v s = Inr s1"
    and p': "in_progress s' = (in_progress s)[v := m]"
    and l': "comm_log s' = comm_log s @ [Send v m]"
    by (rule iteration_char)
  from r obtain new where v: "v < length (in_progress s)"
    and f: "in_progress s ! v \<noteq> StopIteration"
    by (rule resolve_char)
  from T have T1: "\<And>w. w < length (in_progress s) \<Longrightarrow>
        stopped_ok (replies w (comm_log s)) (in_progress s ! w)"
    and T2: "\<And>w. length (in_progress s) \<le> w \<Longrightarrow> replies w (comm_log s) = []"
    and T3: "\<forall>e \<in> set (comm_log s). \<exists>w m. e = Send w m"
    unfolding tr_inv_def by blast+
  have rep: "\<And>w. replies w (comm_log s') = replies w (comm_log s) @ (if v = w then [m] else [])"
    unfolding l' replies_append by simp
  have A: "\<forall>w < length (in_progress s'). stopped_ok (replies w (comm_log s')) (in_progress s' ! w)"
  proof (intro allI impI)
    fix w assume "w < length (in_progress s')"
    then have w: "w < length (in_progress s)" unfolding p' by simp
    show "stopped_ok (replies w (comm_log s')) (in_progress s' ! w)"
    proof (cases "w = v")
      case True
      from T1 [OF v] f have "StopIteration \<notin> set (replies v (comm_log s))"
        by (simp add: stopped_ok_def)
      then show ?thesis unfolding rep p' using True v by (simp add: stopped_ok_def)
    next
      case False
      then show ?thesis unfolding rep p' using T1 [OF w] by simp
    qed
  qed
  have B: "\<forall>w \<ge> length (in_progress s'). replies w (comm_log s') = []"
    unfolding rep p' using T2 v by auto
  have C: "\<forall>e \<in> set (comm_log s'). \<exists>w m. e = Send w m"
    unfolding l' using T3 by auto
  from A B C show ?thesis unfolding tr_inv_def by (intro conjI)
qed

lemma reachable_tr_inv: "reachable a s \<Longrightarrow> tr_inv s"
  by (induction rule: reachable.induct) (auto intro: tr_inv_initial tr_inv_iteration)

subsection \<open>The slave's loop on the master's messages\<close>

lemma log_of_append: "log_of (xs @ ys) = log_of xs @ log_of ys"
  by (induction xs rule: log_of.induct) simp_all

lemma slave_body_msg:
  assumes "m \<noteq> StopIteration"
  shows "\<exists>sl'. slave_body (Msg m) d sl = Inr sl'
     \<and> logbook sl' = logbook sl @ log_of [(Msg m, d)] \<and> stdout sl' = stdout sl"
  using assms by (cases m) (simp_all add: slave_body_def)

lemma slave_loop_msgs:
  assumes "\<forall>r \<in> set rs. \<exists>m. fst r = Msg m \<and> m \<noteq> StopIteration"
  shows "\<exists>sl'. slave_loop (rs @ rest) sl = slave_loop rest sl'
     \<and> logbook sl' = logbook sl @ log_of rs \<and> stdout sl' = stdout sl"
  using assms
proof (induction rs arbitrary: sl)
  case Nil
  show ?case by (intro exI [of _ sl]) simp
next
  case (Cons r rs)
  obtain t d where rd: "r = (t, d)" by (cases r)
  from Cons.prems rd obtain m where m: "t = Msg m" "m \<noteq> StopIteration" by auto
  from slave_body_msg [OF m(2), of d sl] obtain sl1 where b: "slave_body (Msg m) d sl = Inr sl1"
    and l1: "logbook sl1 = logbook sl @ log_of [(Msg m, d)]" and o1: "stdout sl1 = stdout sl"
    by blast
  from Cons.prems have "\<forall>r \<in> set rs. \<exists>m. fst r = Msg m \<and> m \<noteq> StopIteration" by simp
  from Cons.IH [OF this, of sl1] obtain sl' where
    s: "slave_loop (rs @ rest) sl1 = slave_loop rest sl'"
    and l: "logbook sl' = logbook sl1 @ log_of rs" and o: "stdout sl' = stdout sl1"
    by blast
  have "slave_loop ((r # rs) @ rest) sl = slave_loop (rs @ rest) sl1"
    using rd m b by simp
  moreover have "log_of (r # rs) = log_of [(Msg m, d)] @ log_of rs"
    using log_of_append [of "[r]" rs] rd m by simp
  ultimately show ?case using s l o l1 o1 by auto
qed

lemma slave_report_stopped:
  assumes "\<forall>r \<in> set rs. \<exists>m. fst r = Msg m \<and> m \<noteq> StopIteration"
  shows "slave_report (rs @ [(Msg StopIteration, d)]) = Some (log_of rs)"
proof -
  from slave_loop_msgs [OF assms, of "[(Msg StopIteration, d)]" slave0]
  obtain sl' where "slave_loop (rs @ [(Msg StopIteration, d)]) slave0
      = slave_loop [(Msg StopIteration, d)] sl'"
    and "logbook sl' = logbook slave0 @ log_of rs" by blast
  then show ?thesis by (simp add: slave_report_def slave0_def)
qed

lemma slave_report_asking:
  assumes "\<forall>r \<in> set rs. \<exists>m. fst r = Msg m \<and> m \<noteq> StopIteration"
  shows "slave_report rs = None"
proof -
  from slave_loop_msgs [OF assms, of "[]" slave0]
  obtain sl' where "slave_loop rs slave0 = slave_loop [] sl'" by auto
  then show ?thesis by (simp add: slave_report_def)
qed

lemma timed_snoc: "timed d (ms @ [x]) = timed d ms @ [(Msg x, d (length ms))]"
  by (simp add: timed_def nth_append)

lemma timed_msgs:
  assumes "StopIteration \<notin> set ms"
  shows "\<forall>r \<in> set (timed d ms). \<exists>m. fst r = Msg m \<and> m \<noteq> StopIteration"
proof
  fix r assume "r \<in> set (timed d ms)"
  then obtain k where k: "k < length ms" and r: "r = (Msg (ms ! k), d k)"
    by (auto simp: timed_def)
  from k have "ms ! k \<in> set ms" by (rule nth_mem)
  with assms have "ms ! k \<noteq> StopIteration" by metis
  with r show "\<exists>m. fst r = Msg m \<and> m \<noteq> StopIteration" by simp
qed

lemma those_map_Some:
  "\<forall>x \<in> set xs. g x = Some (h x) \<Longrightarrow> those (map g xs) = Some (map h xs)"
  by (induction xs) simp_all

subsection \<open>After the loop\<close>

lemma all_stopped:
  assumes "inv a s" and "nproc s = 0" and "w < nprocs a"
  shows "in_progress s ! w = StopIteration"
proof -
  from invD(4) [OF assms(1)] assms(2)
  have "filter (\<lambda>m. m \<noteq> StopIteration) (in_progress s) = []" by simp
  then have "\<forall>x \<in> set (in_progress s). x = StopIteration"
    by (simp add: filter_empty_conv)
  moreover have "in_progress s ! w \<in> set (in_progress s)"
    using invD(1) [OF assms(1)] assms(3) by simp
  ultimately show ?thesis by blast
qed

lemma stopped_slave:
  assumes "reachable a s" and "nproc s = 0" and "w < nprocs a"
  shows "replies w (comm_log s) = butlast (replies w (comm_log s)) @ [StopIteration]"
    and "StopIteration \<notin> set (butlast (replies w (comm_log s)))"
    and "slave_report (timed d (replies w (comm_log s)))
           = Some (log_of (timed d (butlast (replies w (comm_log s)))))"
proof -
  from assms(1) have I: "inv a s" and T: "tr_inv s"
    by (rule reachable_inv, rule reachable_tr_inv)
  have w: "w < length (in_progress s)" using invD(1) [OF I] assms(3) by simp
  from T w have "stopped_ok (replies w (comm_log s)) (in_progress s ! w)"
    unfolding tr_inv_def by blast
  with all_stopped [OF I assms(2,3)] obtain pre
    where p: "replies w (comm_log s) = pre @ [StopIteration]" and n: "StopIteration \<notin> set pre"
    by (auto simp: stopped_ok_def)
  from p have b: "butlast (replies w (comm_log s)) = pre" by simp
  show "replies w (comm_log s) = butlast (replies w (comm_log s)) @ [StopIteration]"
    unfolding b by (rule p)
  show "StopIteration \<notin> set (butlast (replies w (comm_log s)))"
    unfolding b by (rule n)
  have "slave_report (timed d (pre @ [StopIteration])) = Some (log_of (timed d pre))"
    unfolding timed_snoc by (rule slave_report_stopped) (rule timed_msgs [OF n])
  then show "slave_report (timed d (replies w (comm_log s)))
           = Some (log_of (timed d (butlast (replies w (comm_log s)))))"
    unfolding b unfolding p .
qed

lemma main_exited:
  assumes "run a ws = Inr s" and "nproc s = 0"
  shows "master_main a d ws = Inr (Exited (s\<lparr>comm_log := comm_log s @
           [Gather (map (\<lambda>w. log_of (timed (d w) (butlast (replies w (comm_log s)))))
                     [0..<nprocs a]),
            Disconnect]\<rparr>))"
proof -
  from assms(1) have r: "reachable a s" by (rule run_reachable)
  have "gather (nprocs a) d (comm_log s)
      = Some (map (\<lambda>w. log_of (timed (d w) (butlast (replies w (comm_log s))))) [0..<nprocs a])"
    unfolding gather_def
    by (rule those_map_Some) (simp add: stopped_slave(3) [OF r assms(2)])
  then show ?thesis using assms by (simp add: master_main_def)
qed

lemma main_receiving:
  assumes "run a ws = Inr s" and "nproc s \<noteq> 0"
  shows "master_main a d ws = Inr (Receiving s)"
  using assms by (simp add: master_main_def)

lemma log_of_shapes:
  "\<forall>e \<in> set (log_of rs). (\<exists>d. e = Tuple2 ''sleep'' d) \<or> (\<exists>p d. e = Tuple3 ''timeslice'' p d)"
  by (induction rs rule: log_of.induct) simp_all

lemma still1_done:
  "run still1 [0, 0] = Inr \<lparr>msg_list = [], msg_deps = 0, nproc = 0,
     in_progress = [StopIteration],
     comm_log = [Send 0 (Timeslice (Params None None)), Send 0 StopIteration]\<rparr>"
  by (simp add: run_def initial_def still1_def iteration_def resolve_def stop_or_wait_def
      next_job_def)

subsection \<open>Runs without dependencies\<close>

lemma iteration_job:
  assumes "w < length (in_progress s)"
    and "in_progress s ! w = PyNone \<or> (\<exists>p. in_progress s ! w = Timeslice p)"
    and "msg_list s = j # rest"
  shows "iteration a w s = Inr (s\<lparr>msg_list := rest, comm_log := comm_log s @ [Send w j],
           in_progress := (in_progress s)[w := j]\<rparr>)"
  using assms by (auto simp: iteration_def resolve_def stop_or_wait_def next_job_def)

lemma iteration_stop:
  assumes "w < length (in_progress s)"
    and "in_progress s ! w = PyNone \<or> (\<exists>p. in_progress s ! w = Timeslice p)"
    and "msg_list s = []" and "msg_deps s = 0"
  shows "iteration a w s = Inr (s\<lparr>msg_list := [], nproc := nproc s - 1,
           comm_log := comm_log s @ [Send w StopIteration],
           in_progress := (in_progress s)[w := StopIteration]\<rparr>)"
  using assms by (auto simp: iteration_def resolve_def stop_or_wait_def next_job_def)

lemma dispatch_phase:
  assumes "length ws1 = length js1"
    and "\<forall>w \<in> set ws1. w < length (in_progress s)"
    and "\<forall>m \<in> set (in_progress s). m = PyNone \<or> (\<exists>p. m = Timeslice p)"
    and "\<forall>j \<in> set js1. \<exists>p. j = Timeslice p"
    and "msg_list s = js1 @ js2" and "nproc s \<noteq> 0"
  shows "\<exists>xs. master_loop a (ws1 @ ws') s
           = master_loop a ws' (s\<lparr>msg_list := js2,
               comm_log := comm_log s @ map (\<lambda>(w, j). Send w j) (zip ws1 js1),
               in_progress := xs\<rparr>)
         \<and> length xs = length (in_progress s)
         \<and> (\<forall>m \<in> set xs. m = PyNone \<or> (\<exists>p. m = Timeslice p))"
  using assms
proof (induction ws1 js1 arbitrary: s rule: list_induct2)
  case Nil
  have "s\<lparr>msg_list := js2, comm_log := comm_log s @ [], in_progress := in_progress s\<rparr> = s"
    using Nil.prems(4) by simp
  with Nil.prems(2) show ?case
    by (intro exI [of _ "in_progress s"]) simp
next
  case (Cons w ws j js)
  let ?s = "s\<lparr>msg_list := js @ js2, comm_log := comm_log s @ [Send w j],
           in_progress := (in_progress s)[w := j]\<rparr>"
  have w: "w < length (in_progress s)" using Cons.prems(1) by simp
  have slot: "in_progress s ! w = PyNone \<or> (\<exists>p. in_progress s ! w = Timeslice p)"
    using Cons.prems(2) w by (metis nth_mem)
  have it: "iteration a w s = Inr ?s"
    using w slot by (rule iteration_job) (simp add: Cons.prems(4))
  have step: "master_loop a ((w # ws) @ ws') s = master_loop a (ws @ ws') ?s"
    using it Cons.prems(5) by simp
  have 1: "\<forall>v \<in> set ws. v < length (in_progress ?s)" using Cons.prems(1) by simp
  have jt: "\<exists>p. j = Timeslice p" using Cons.prems(3) by simp
  have 2: "\<forall>m \<in> set (in_progress ?s). m = PyNone \<or> (\<exists>p. m = Timeslice p)"
  proof
    fix m assume "m \<in> set (in_progress ?s)"
    then have "m = j \<or> m \<in> set (in_progress s)" using in_set_update [of m "in_progress s" w j] by simp
    with jt Cons.prems(2) show "m = PyNone \<or> (\<exists>p. m = Timeslice p)" by blast
  qed
  have 3: "\<forall>j \<in> set js. \<exists>p. j = Timeslice p" using Cons.prems(3) by simp
  have 4: "msg_list ?s = js @ js2" by simp
  have 5: "nproc ?s \<noteq> 0" using Cons.prems(5) by simp
  from Cons.IH [OF 1 2 3 4 5] obtain xs where
    l: "master_loop a (ws @ ws') ?s
           = master_loop a ws' (?s\<lparr>msg_list := js2,
               comm_log := comm_log ?s @ map (\<lambda>(w, j). Send w j) (zip ws js),
               in_progress := xs\<rparr>)"
    and n: "length xs = length (in_progress ?s)"
    and r: "\<forall>m \<in> set xs. m = PyNone \<or> (\<exists>p. m = Timeslice p)"
    by blast
  have e: "?s\<lparr>msg_list := js2,
               comm_log := comm_log ?s @ map (\<lambda>(w, j). Send w j) (zip ws js),
               in_progress := xs\<rparr>
      = s\<lparr>msg_list := js2,
               comm_log := comm_log s @ map (\<lambda>(w, j). Send w j) (zip (w # ws) (j # js)),
               in_progress := xs\<rparr>"
    by simp
  show ?case
    unfolding step l e using n r by (intro exI [of _ xs]) simp
qed

lemma fold_update_length: "length (fold (\<lambda>w xs. xs[w := v]) ws xs) = length xs"
  by (induction ws arbitrary: xs) simp_all

lemma fold_update_nth:
  "i < length xs \<Longrightarrow>
   fold (\<lambda>w xs. xs[w := v]) ws xs ! i = (if i \<in> set ws then v else xs ! i)"
proof (induction ws arbitrary: xs)
  case Nil
  then show ?case by simp
next
  case (Cons w ws)
  have "fold (\<lambda>w xs. xs[w := v]) (w # ws) xs ! i = fold (\<lambda>w xs. xs[w := v]) ws (xs[w := v]) ! i"
    by simp
  also have "\<dots> = (if i \<in> set ws then v else xs[w := v] ! i)"
    using Cons.prems by (intro Cons.IH) simp
  also have "\<dots> = (if i \<in> set (w # ws) then v else xs ! i)"
    using Cons.prems by (auto simp: nth_list_update)
  finally show ?case .
qed

lemma fold_update_all:
  assumes "set ws = {0..<length xs}"
  shows "fold (\<lambda>w xs. xs[w := v]) ws xs = replicate (length xs) v"
proof (rule nth_equalityI)
  show "length (fold (\<lambda>w xs. xs[w := v]) ws xs) = length (replicate (length xs) v)"
    by (simp add: fold_update_length)
next
  fix i assume "i < length (fold (\<lambda>w xs. xs[w := v]) ws xs)"
  then have i: "i < length xs" by (simp add: fold_update_length)
  then have "i \<in> set ws" using assms by simp
  with i show "fold (\<lambda>w xs. xs[w := v]) ws xs ! i = replicate (length xs) v ! i"
    by (simp add: fold_update_nth)
qed

lemma stop_phase:
  assumes "distinct ws"
    and "\<forall>w \<in> set ws. w < length (in_progress s)
           \<and> (in_progress s ! w = PyNone \<or> (\<exists>p. in_progress s ! w = Timeslice p))"
    and "msg_list s = []" and "msg_deps s = 0" and "length ws \<le> nproc s"
  shows "master_loop a ws s = Inr (s\<lparr>msg_list := [], nproc := nproc s - length ws,
           comm_log := comm_log s @ map (\<lambda>w. Send w StopIteration) ws,
           in_progress := fold (\<lambda>w xs. xs[w := StopIteration]) ws (in_progress s)\<rparr>)"
  using assms
proof (induction ws arbitrary: s)
  case Nil
  then show ?case by simp
next
  case (Cons w ws)
  let ?s = "s\<lparr>msg_list := [], nproc := nproc s - 1,
           comm_log := comm_log s @ [Send w StopIteration],
           in_progress := (in_progress s)[w := StopIteration]\<rparr>"
  have w: "w < length (in_progress s)"
    and slot: "in_progress s ! w = PyNone \<or> (\<exists>p. in_progress s ! w = Timeslice p)"
    using Cons.prems(2) by simp_all
  have it: "iteration a w s = Inr ?s"
    using w slot Cons.prems(3,4) by (rule iteration_stop)
  have n: "nproc s \<noteq> 0" using Cons.prems(5) by auto
  have step: "master_loop a (w # ws) s = master_loop a ws ?s" using it n by simp
  have 1: "distinct ws" and nw: "w \<notin> set ws" using Cons.prems(1) by simp_all
  have 2: "\<forall>v \<in> set ws. v < length (in_progress ?s)
           \<and> (in_progress ?s ! v = PyNone \<or> (\<exists>p. in_progress ?s ! v = Timeslice p))"
  proof
    fix v assume v: "v \<in> set ws"
    with nw have "v \<noteq> w" by auto
    then have "in_progress ?s ! v = in_progress s ! v" by simp
    with Cons.prems(2) v show "v < length (in_progress ?s)
           \<and> (in_progress ?s ! v = PyNone \<or> (\<exists>p. in_progress ?s ! v = Timeslice p))"
      by simp
  qed
  have 3: "msg_list ?s = []" and 4: "msg_deps ?s = 0" using Cons.prems(4) by simp_all
  have 5: "length ws \<le> nproc ?s" using Cons.prems(5) by simp
  show ?case unfolding step Cons.IH [OF 1 2 3 4 5] by simp
qed

subsection \<open>Stops per slave\<close>

lemma stops_at_most_once:
  assumes "reachable a s"
  shows "length (filter (\<lambda>m. m = StopIteration) (replies w (comm_log s))) \<le> 1"
proof (cases "w < length (in_progress s)")
  case True
  from assms have "tr_inv s" by (rule reachable_tr_inv)
  with True have "stopped_ok (replies w (comm_log s)) (in_progress s ! w)"
    unfolding tr_inv_def by blast
  then consider pre where "replies w (comm_log s) = pre @ [StopIteration]"
      and "StopIteration \<notin> set pre"
    | "StopIteration \<notin> set (replies w (comm_log s))"
    unfolding stopped_ok_def by (auto split: if_splits)
  then show ?thesis
  proof cases
    case 1
    from 1(2) have "filter (\<lambda>m. m = StopIteration) pre = []"
      by (auto simp: filter_empty_conv)
    then show ?thesis unfolding 1(1) by simp
  next
    case 2
    then have "filter (\<lambda>m. m = StopIteration) (replies w (comm_log s)) = []"
      by (auto simp: filter_empty_conv)
    then show ?thesis by simp
  qed
next
  case False
  from assms have "tr_inv s" by (rule reachable_tr_inv)
  with False have "replies w (comm_log s) = []" unfolding tr_inv_def by simp
  then show ?thesis by simp
qed

lemma stops_exactly_once_at_the_end:
  assumes "reachable a s" and "nproc s = 0" and "w < nprocs a"
  shows "length (filter (\<lambda>m. m = StopIteration) (replies w (comm_log s))) = 1"
proof -
  from stopped_slave(1,2) [OF assms]
  have p: "replies w (comm_log s) = butlast (replies w (comm_log s)) @ [StopIteration]"
    and n: "StopIteration \<notin> set (butlast (replies w (comm_log s)))" .
  from n have "filter (\<lambda>m. m = StopIteration) (butlast (replies w (comm_log s))) = []"
    by (auto simp: filter_empty_conv)
  then show ?thesis by (subst p) simp
qed

subsection \<open>Every fair run ends\<close>

lemma sum_update:
  assumes "w < length xs"
  shows "sum_list (map f (xs[w := m])) + f (xs ! w) = sum_list (map f xs) + (f m :: nat)"
proof -
  have a: "xs = take w xs @ xs ! w # drop (Suc w) xs"
    using assms by (rule id_take_nth_drop)
  have "sum_list (map f xs) = sum_list (map f (take w xs @ xs ! w # drop (Suc w) xs))"
    using a by simp
  then have b: "sum_list (map f xs)
      = sum_list (map f (take w xs)) + f (xs ! w) + sum_list (map f (drop (Suc w) xs))"
    by simp
  have "xs[w := m] = take w xs @ m # drop (Suc w) xs"
    using assms by (rule upd_conv_take_nth_drop)
  then have "sum_list (map f (xs[w := m]))
      = sum_list (map f (take w xs)) + f m + sum_list (map f (drop (Suc w) xs))"
    by simp
  with b show ?thesis by simp
qed

lemma iteration_total:
  assumes "reachable a s" and "t_frames a \<noteq> 0" and "w < length (in_progress s)"
    and "in_progress s ! w \<noteq> StopIteration"
  shows "\<exists>s'. iteration a w s = Inr s'"
proof -
  have "\<exists>s1. resolve a w s = Inr s1"
  proof (cases "in_progress s ! w")
    case PyNone
    then show ?thesis using assms(3) by (simp add: resolve_def)
  next
    case StopIteration
    with assms(4) show ?thesis by simp
  next
    case Load_xyts
    then show ?thesis using assms(3) by (simp add: resolve_def)
  next
    case (Load_xyts_ts i n)
    from shard_done [OF assms(1,3) Load_xyts_ts assms(2)] show ?thesis by blast
  next
    case (Timeslice p)
    then show ?thesis using assms(3) by (simp add: resolve_def)
  qed
  then obtain s1 where r: "resolve a w s = Inr s1" by blast
  then have k: "in_progress s1 = in_progress s"
    by (auto simp: resolve_def split: if_splits msg.splits sum.splits)
  have "msg_list (stop_or_wait s1) \<noteq> []" by (simp add: stop_or_wait_def)
  then obtain m rest where "msg_list (stop_or_wait s1) = m # rest" by (cases "msg_list (stop_or_wait s1)") auto
  then have "\<exists>s'. next_job w (stop_or_wait s1) = Inr s'"
    using assms(3) k by (simp add: next_job_def stop_or_wait_def)
  with r show ?thesis by (simp add: iteration_def)
qed

lemma resolve_cost:
  assumes I: "inv a s" and r: "resolve a w s = Inr s1"
  shows "\<exists>new. msg_list s1 = msg_list s @ new
     \<and> msg_deps s1 = msg_deps s - (if gen (in_progress s ! w) then 1 else 0)
                         + int (length (filter gen new))
     \<and> sum_list (map (cost_list a) new) + (if is_job (in_progress s ! w) then 1 else 0)
         \<le> cost_slot a (in_progress s ! w)"
proof -
  from r have w: "w < length (in_progress s)"
    by (auto simp: resolve_def split: if_splits)
  then have fin: "in_progress s ! w \<in> set (in_progress s)" by simp
  show ?thesis
  proof (cases "in_progress s ! w")
    case PyNone
    with r w have "s1 = s" by (simp add: resolve_def)
    with PyNone show ?thesis by (intro exI [of _ "[]"]) simp
  next
    case StopIteration
    with r w show ?thesis by (simp add: resolve_def)
  next
    case Load_xyts
    with r w have s1: "s1 = s\<lparr>msg_deps := msg_deps s - 1 + int (nproc s),
        msg_list := msg_list s @ map (\<lambda>i. Load_xyts_ts i (nproc s)) [0..<nproc s]\<rparr>"
      by (simp add: resolve_def)
    have "\<exists>m \<in> set (msg_list s) \<union> set (in_progress s). gen m"
      using fin Load_xyts by (intro bexI [of _ Load_xyts]) simp_all
    with invD(5) [OF I] have n: "nproc s = nprocs a" by simp
    have c: "\<And>k. sum_list (map (cost_list a \<circ> (\<lambda>i. Load_xyts_ts i k)) [0..<k])
        = k * (2 + 2 * nat (frames_sr a))"
      by (simp add: comp_def cost_list_def sum_list_triv)
    show ?thesis
      using Load_xyts n
      by (intro exI [of _ "map (\<lambda>i. Load_xyts_ts i (nproc s)) [0..<nproc s]"])
         (simp add: s1 c filter_gen_shards)
  next
    case (Load_xyts_ts i n)
    with r w obtain q where q: "ready_frames a (py_range (int i) (nt a) (nproc s))
                       [0..<nat (frames_sr a)] (msg_list s) = Inr q"
       and s1: "s1 = s\<lparr>msg_list := q, msg_deps := msg_deps s - 1\<rparr>"
      by (auto simp: resolve_def split: if_splits sum.splits)
    let ?js = "filter (\<lambda>k. xpos a k \<in> set (py_range (int i) (nt a) (nproc s))) [0..<nat (frames_sr a)]"
    from ready_frames_Inr [OF q] have qq: "q = msg_list s @ map (frame_job a) ?js" .
    have "length ?js \<le> length [0..<nat (frames_sr a)]" by (rule length_filter_le)
    then have l: "length ?js \<le> nat (frames_sr a)" by simp
    have c: "sum_list (map (cost_list a \<circ> frame_job a) ?js) = length ?js * 2"
      by (simp add: comp_def cost_list_def frame_job_def sum_list_triv)
    show ?thesis
      using Load_xyts_ts l
      by (intro exI [of _ "map (frame_job a) ?js"]) (simp add: s1 qq c filter_gen_frames)
  next
    case (Timeslice p)
    with r w have "s1 = s" by (simp add: resolve_def)
    with Timeslice show ?thesis by (intro exI [of _ "[]"]) simp
  qed
qed


lemma cost_slot_zero: "cost_slot a m = 0 \<longleftrightarrow> m = PyNone \<or> m = StopIteration"
  by (cases m) simp_all

lemma iteration_progress:
  assumes R: "reachable a s" and it: "iteration a w s = Inr s'"
  shows "work_left a s' < work_left a s
    \<or> (msg_list s' = msg_list s \<and> msg_deps s' = msg_deps s \<and> nproc s' = nproc s
        \<and> in_progress s' = in_progress s
        \<and> in_progress s ! w = PyNone \<and> msg_list s = [] \<and> msg_deps s \<noteq> 0)"
proof -
  from R have I: "inv a s" by (rule reachable_inv)
  from it obtain s1 m where r: "resolve a w s = Inr s1"
    and d': "msg_deps s' = msg_deps s1"
    and p': "in_progress s' = (in_progress s)[w := m]"
    and c: "(msg_list s1 = m # msg_list s' \<and> nproc s' = nproc s)
       \<or> (msg_list s1 = [] \<and> msg_deps s1 = 0 \<and> m = StopIteration \<and> msg_list s' = []
            \<and> nproc s' = nproc s - 1)
       \<or> (msg_list s1 = [] \<and> msg_deps s1 \<noteq> 0 \<and> m = PyNone \<and> msg_list s' = []
            \<and> nproc s' = nproc s)"
    by (rule iteration_char)
  from r obtain new0 where w: "w < length (in_progress s)"
    and f: "in_progress s ! w \<noteq> StopIteration"
    by (rule resolve_char)
  from resolve_cost [OF I r] obtain new where q1: "msg_list s1 = msg_list s @ new"
    and d1: "msg_deps s1 = msg_deps s - (if gen (in_progress s ! w) then 1 else 0)
                         + int (length (filter gen new))"
    and cn: "sum_list (map (cost_list a) new) + (if is_job (in_progress s ! w) then 1 else 0)
         \<le> cost_slot a (in_progress s ! w)"
    by blast
  define Q where "Q = sum_list (map (cost_list a) (msg_list s))"
  define Q' where "Q' = sum_list (map (cost_list a) (msg_list s'))"
  define N where "N = sum_list (map (cost_list a) new)"
  define S where "S = sum_list (map (cost_slot a) (in_progress s))"
  define S' where "S' = sum_list (map (cost_slot a) (in_progress s'))"
  define cf where "cf = cost_slot a (in_progress s ! w)"
  define cm where "cm = cost_slot a m"
  have mu: "work_left a s = Q + S + nproc s" "work_left a s' = Q' + S' + nproc s'"
    by (simp_all add: work_left_def Q_def Q'_def S_def S'_def)
  have su: "S' + cf = S + cm"
    unfolding S'_def S_def cf_def cm_def p' by (rule sum_update [OF w])
  have q1s: "sum_list (map (cost_list a) (msg_list s1)) = Q + N"
    unfolding q1 Q_def N_def by simp
  have ncf: "N \<le> cf" using cn unfolding N_def cf_def by simp
  have np: "1 \<le> nproc s"
  proof -
    have "in_progress s ! w \<in> set (filter (\<lambda>m. m \<noteq> StopIteration) (in_progress s))"
      using w f by simp
    then have "filter (\<lambda>m. m \<noteq> StopIteration) (in_progress s) \<noteq> []"
      by (metis empty_iff empty_set)
    then show ?thesis unfolding invD(4) [OF I] by (simp add: Suc_le_eq)
  qed
  from c consider
      (A) "msg_list s1 = m # msg_list s'" "nproc s' = nproc s"
    | (B) "msg_list s1 = []" "m = StopIteration" "msg_list s' = []" "nproc s' = nproc s - 1"
    | (C) "msg_list s1 = []" "msg_deps s1 \<noteq> 0" "m = PyNone" "msg_list s' = []"
          "nproc s' = nproc s"
    by blast
  then show ?thesis
  proof cases
    case A
    have "m \<in> set (msg_list s) \<union> set new" using A(1) q1 by (metis list.set_intros(1) set_append)
    moreover from r obtain new1 where "msg_list s1 = msg_list s @ new1"
      and "\<forall>x \<in> set new1. is_job x" by (rule resolve_char)
    then have "\<forall>x \<in> set new. is_job x" using q1 by simp
    ultimately have "is_job m" using invD(3) [OF I] by blast
    then have "cost_list a m = cm + 1" by (simp add: cost_list_def cm_def)
    then have "Q + N = cm + 1 + Q'" using q1s unfolding A(1) Q'_def by simp
    with su ncf have "Q' + S' + 1 \<le> Q + S" by linarith
    then have "work_left a s' < work_left a s" unfolding mu A(2) by simp
    then show ?thesis ..
  next
    case B
    have "Q + N = 0" using q1s unfolding B(1) by simp
    moreover have "Q' = 0" unfolding Q'_def B(3) by simp
    moreover have "cm = 0" unfolding cm_def B(2) by simp
    ultimately have "work_left a s' < work_left a s"
      unfolding mu B(4) using su np by linarith
    then show ?thesis ..
  next
    case C
    have z: "Q + N = 0" using q1s unfolding C(1) by simp
    have z': "Q' = 0" unfolding Q'_def C(4) by simp
    have cm0: "cm = 0" unfolding cm_def C(3) by simp
    show ?thesis
    proof (cases "cf = 0")
      case False
      then have "work_left a s' < work_left a s"
        unfolding mu C(5) using su z z' cm0 by linarith
      then show ?thesis ..
    next
      case True
      then have fn: "in_progress s ! w = PyNone"
        using f unfolding cf_def cost_slot_zero by simp
      have e: "msg_list s = []" "new = []" using q1 C(1) by simp_all
      have "in_progress s' = in_progress s" unfolding p' C(3) using fn by (metis list_update_id)
      moreover have "msg_deps s' = msg_deps s" unfolding d' d1 using fn e by simp
      moreover have "msg_deps s \<noteq> 0" using C(2) unfolding d1 using fn e by simp
      ultimately show ?thesis using e C(4,5) fn by simp
    qed
  qed
qed


lemma turns_reachable: "turns a \<sigma> n = Inr s \<Longrightarrow> reachable a s"
proof (induction n arbitrary: s)
  case 0
  then show ?case by (simp add: reachable.start)
next
  case (Suc n)
  then obtain t where t: "turns a \<sigma> n = Inr t" and u: "turn a (\<sigma> n) t = Inr s"
    by (auto split: sum.splits)
  from Suc.IH [OF t] have r: "reachable a t" .
  show ?case
  proof (cases "nproc t \<noteq> 0 \<and> \<sigma> n < length (in_progress t)
      \<and> in_progress t ! \<sigma> n \<noteq> StopIteration")
    case True
    with u have "iteration a (\<sigma> n) t = Inr s" by (simp add: turn_def)
    with r True show ?thesis by (blast intro: reachable.step)
  next
    case False
    with u have "s = t" by (auto simp: turn_def)
    with r show ?thesis by simp
  qed
qed

lemma someone_not_idle:
  assumes "reachable a s" and "nproc s \<noteq> 0"
  shows "\<exists>v. not_idle s v"
proof -
  from assms(1) have I: "inv a s" by (rule reachable_inv)
  show ?thesis
  proof (cases "msg_list s = [] \<and> msg_deps s \<noteq> 0")
    case True
    with invD(2) [OF I] have "filter gen (in_progress s) \<noteq> []" by auto
    then obtain x where "x \<in> set (in_progress s)" and g: "gen x"
      by (metis filter_empty_conv)
    then obtain v where v: "v < length (in_progress s)" and x: "in_progress s ! v = x"
      by (auto simp: in_set_conv_nth)
    from g have "x \<noteq> StopIteration" "x \<noteq> PyNone" by auto
    with v x have "not_idle s v" by (simp add: not_idle_def)
    then show ?thesis ..
  next
    case False
    from assms(2) invD(4) [OF I] have "filter (\<lambda>m. m \<noteq> StopIteration) (in_progress s) \<noteq> []"
      by auto
    then obtain x where "x \<in> set (in_progress s)" and g: "x \<noteq> StopIteration"
      by (metis (mono_tags, lifting) filter_empty_conv)
    then obtain v where v: "v < length (in_progress s)" and x: "in_progress s ! v = x"
      by (auto simp: in_set_conv_nth)
    with g False have "not_idle s v" by (auto simp: not_idle_def)
    then show ?thesis ..
  qed
qed

lemma progress_at:
  assumes tf: "t_frames a \<noteq> 0"
  shows "turns a \<sigma> n = Inr s \<Longrightarrow> nproc s \<noteq> 0 \<Longrightarrow> not_idle s v \<Longrightarrow> \<sigma> (n + d) = v
    \<Longrightarrow> \<exists>m s'. turns a \<sigma> m = Inr s' \<and> work_left a s' < work_left a s"
proof (induction d arbitrary: n s)
  case 0
  from 0(1) have R: "reachable a s" by (rule turns_reachable)
  from 0(3) have v: "v < length (in_progress s)" "in_progress s ! v \<noteq> StopIteration"
    by (simp_all add: not_idle_def)
  from iteration_total [OF R tf v] obtain s' where it: "iteration a v s = Inr s'" by blast
  have "turn a (\<sigma> n) s = Inr s'" using 0(2,4) v it by (simp add: turn_def)
  then have t: "turns a \<sigma> (Suc n) = Inr s'" using 0(1) by simp
  from iteration_progress [OF R it] 0(3) have "work_left a s' < work_left a s"
    by (auto simp: not_idle_def)
  with t show ?case by blast
next
  case (Suc d)
  from Suc.prems(1) have R: "reachable a s" by (rule turns_reachable)
  let ?w = "\<sigma> n"
  have sv: "\<sigma> (Suc n + d) = v" using Suc.prems(4) by simp
  show ?case
  proof (cases "?w < length (in_progress s) \<and> in_progress s ! ?w \<noteq> StopIteration")
    case True
    from iteration_total [OF R tf] True obtain s1 where it: "iteration a ?w s = Inr s1" by blast
    have "turn a ?w s = Inr s1" using Suc.prems(2) True it by (simp add: turn_def)
    then have t: "turns a \<sigma> (Suc n) = Inr s1" using Suc.prems(1) by simp
    from iteration_progress [OF R it] show ?thesis
    proof
      assume "work_left a s1 < work_left a s"
      with t show ?thesis by blast
    next
      assume same: "msg_list s1 = msg_list s \<and> msg_deps s1 = msg_deps s \<and> nproc s1 = nproc s
        \<and> in_progress s1 = in_progress s
        \<and> in_progress s ! ?w = PyNone \<and> msg_list s = [] \<and> msg_deps s \<noteq> 0"
      then have n1: "nproc s1 \<noteq> 0" using Suc.prems(2) by simp
      from same Suc.prems(3) have i1: "not_idle s1 v" by (simp add: not_idle_def)
      from same have w1: "work_left a s1 = work_left a s" by (simp add: work_left_def)
      from Suc.IH [OF t n1 i1 sv] show ?thesis unfolding w1 .
    qed
  next
    case False
    then have "turn a ?w s = Inr s" by (auto simp: turn_def)
    then have t: "turns a \<sigma> (Suc n) = Inr s" using Suc.prems(1) by simp
    from Suc.IH [OF t Suc.prems(2,3) sv] show ?thesis .
  qed
qed

lemma fair_termination:
  assumes fr: "fair (nprocs a) \<sigma>" and tf: "t_frames a \<noteq> 0"
  shows "turns a \<sigma> n = Inr s \<Longrightarrow> \<exists>m s'. turns a \<sigma> m = Inr s' \<and> nproc s' = 0"
proof (induction "work_left a s" arbitrary: n s rule: less_induct)
  case less
  show ?case
  proof (cases "nproc s = 0")
    case True
    with less.prems show ?thesis by blast
  next
    case False
    from less.prems have R: "reachable a s" by (rule turns_reachable)
    from someone_not_idle [OF R False] obtain v where v: "not_idle s v" by blast
    then have "v < nprocs a" using invD(1) [OF reachable_inv [OF R]] by (simp add: not_idle_def)
    with fr obtain k where k: "n \<le> k" "\<sigma> k = v" unfolding fair_def by blast
    then have "\<sigma> (n + (k - n)) = v" by simp
    from progress_at [OF tf less.prems False v this] obtain m s'
      where t: "turns a \<sigma> m = Inr s'" and l: "work_left a s' < work_left a s" by blast
    from less.hyps [OF l t] show ?thesis .
  qed
qed

lemma fair_run_stops_every_slave:
  assumes "fair (nprocs a) \<sigma>" and "t_frames a \<noteq> 0" and "initial a = Inr s0"
  shows "\<exists>n s. turns a \<sigma> n = Inr s \<and> nproc s = 0
     \<and> (\<forall>w < nprocs a. length (filter (\<lambda>m. m = StopIteration) (replies w (comm_log s))) = 1)"
proof -
  have "turns a \<sigma> 0 = Inr s0" using assms(3) by simp
  from fair_termination [OF assms(1,2) this] obtain m s
    where t: "turns a \<sigma> m = Inr s" and n: "nproc s = 0" by blast
  from t have "reachable a s" by (rule turns_reachable)
  then have "\<forall>w < nprocs a. length (filter (\<lambda>m. m = StopIteration) (replies w (comm_log s))) = 1"
    using n by (simp add: stops_exactly_once_at_the_end)
  with t n show ?thesis by blast
qed

section \<open>The claims\<close>

subsection \<open>The slot of the slave that asked\<close>

lemma iteration_Inr:
  assumes "iteration a w s = Inr s'"
  obtains s1 m rest where "resolve a w s = Inr s1"
    and "msg_list (stop_or_wait s1) = m # rest"
    and "w < length (in_progress s)"
    and "s' = (stop_or_wait s1)\<lparr>msg_list := rest,
            comm_log := comm_log (stop_or_wait s1) @ [Send w m],
            in_progress := (in_progress (stop_or_wait s1))[w := m]\<rparr>"
proof -
  from assms obtain s1 where r: "resolve a w s = Inr s1"
    and n: "next_job w (stop_or_wait s1) = Inr s'"
    by (auto simp: iteration_def split: sum.splits)
  from r have w: "w < length (in_progress s)"
    by (auto simp: resolve_def split: if_splits)
  from n obtain m rest where h: "msg_list (stop_or_wait s1) = m # rest"
    and s': "s' = (stop_or_wait s1)\<lparr>msg_list := rest,
            comm_log := comm_log (stop_or_wait s1) @ [Send w m],
            in_progress := (in_progress (stop_or_wait s1))[w := m]\<rparr>"
    by (auto simp: next_job_def split: list.splits if_splits)
  from r h w s' show thesis by (rule that)
qed

lemma resolve_keeps:
  "resolve a w s = Inr s1 \<Longrightarrow>
     in_progress s1 = in_progress s \<and> nproc s1 = nproc s \<and> comm_log s1 = comm_log s"
  by (auto simp: resolve_def split: if_splits msg.splits sum.splits)

lemma stop_or_wait_keeps:
  "in_progress (stop_or_wait s) = in_progress s \<and> comm_log (stop_or_wait s) = comm_log s"
  by (simp add: stop_or_wait_def)

text \<open>
  Claim C6, as the code has it. In every iteration that does not raise, the head of
  the message list (after the sentinel, if any, has been appended) is removed from
  the list, sent to the slave that asked and stored in that slave's slot, whatever
  it is. When the list is empty and no dependency is open the head is
  \<open>StopIteration\<close>, and the slot holds \<open>StopIteration\<close> afterwards. (The source
  sends in line 505 and stores in line 506.)
\<close>

theorem slot_holds_what_was_sent:
  assumes "resolve a w s = Inr s1" and "iteration a w s = Inr s'"
  shows "\<exists>m. msg_list (stop_or_wait s1) = m # msg_list s'
           \<and> comm_log s' = comm_log s @ [Send w m]
           \<and> w < length (in_progress s)
           \<and> in_progress s' = (in_progress s)[w := m]
           \<and> in_progress s' ! w = m
           \<and> (msg_list s1 = [] \<and> msg_deps s1 = 0 \<longrightarrow> m = StopIteration)"
proof -
  from assms(2) obtain t m rest where t: "resolve a w s = Inr t"
    and h0: "msg_list (stop_or_wait t) = m # rest"
    and w: "w < length (in_progress s)"
    and s': "s' = (stop_or_wait t)\<lparr>msg_list := rest,
            comm_log := comm_log (stop_or_wait t) @ [Send w m],
            in_progress := (in_progress (stop_or_wait t))[w := m]\<rparr>"
    by (rule iteration_Inr)
  have "msg_list s' = rest" by (subst s') simp
  with h0 have h: "msg_list (stop_or_wait t) = m # msg_list s'" by simp
  from t assms(1) have ts: "t = s1" by simp
  note h = h [unfolded ts] and s' = s' [unfolded ts]
  have k: "in_progress (stop_or_wait s1) = in_progress s" "comm_log (stop_or_wait s1) = comm_log s"
    using resolve_keeps [OF assms(1)] stop_or_wait_keeps [of s1] by simp_all
  have c: "comm_log s' = comm_log s @ [Send w m]"
    by (subst s') (simp add: k)
  have i: "in_progress s' = (in_progress s)[w := m]"
    by (subst s') (simp add: k)
  have "msg_list s1 = [] \<and> msg_deps s1 = 0 \<longrightarrow> m = StopIteration"
    using h by (auto simp: stop_or_wait_def)
  with h c i w show ?thesis by auto
qed

theorem slot_holds_what_was_sent_witness:
  "\<exists>s s1 s'. run still1 [0] = Inr s \<and> resolve still1 0 s = Inr s1
      \<and> iteration still1 0 s = Inr s'
      \<and> msg_list s1 = [] \<and> msg_deps s1 = 0
      \<and> comm_log s' = comm_log s @ [Send 0 StopIteration]
      \<and> in_progress s' ! 0 = StopIteration"
proof -
  define s where "s = \<lparr>msg_list = [], msg_deps = 0, nproc = 1,
     in_progress = [Timeslice (Params None None)],
     comm_log = [Send 0 (Timeslice (Params None None))]\<rparr>"
  have r: "run still1 [0] = Inr s"
    by (simp add: run_def initial_def still1_def iteration_def resolve_def stop_or_wait_def
        next_job_def s_def)
  have r1: "resolve still1 0 s = Inr s"
    by (simp add: resolve_def s_def)
  obtain s' where i: "iteration still1 0 s = Inr s'"
    by (simp add: iteration_def resolve_def stop_or_wait_def next_job_def s_def)
  have e: "msg_list s = [] \<and> msg_deps s = 0" by (simp add: s_def)
  from slot_holds_what_was_sent [OF r1 i] e
  have "comm_log s' = comm_log s @ [Send 0 StopIteration] \<and> in_progress s' ! 0 = StopIteration"
    by auto
  with r r1 i e show ?thesis by blast
qed

text \<open>
  Claim C6 as stated fails: the still image run with one slave. The slave asks twice;
  the second reply is \<open>StopIteration\<close>, and the slave's slot holds
  \<open>StopIteration\<close> when the loop ends.
\<close>

theorem stop_is_recorded_in_slot:
  "run still1 [0, 0] = Inr \<lparr>msg_list = [], msg_deps = 0, nproc = 0,
     in_progress = [StopIteration],
     comm_log = [Send 0 (Timeslice (Params None None)), Send 0 StopIteration]\<rparr>"
  by (simp add: run_def initial_def still1_def iteration_def resolve_def stop_or_wait_def
      next_job_def)

subsection \<open>The dependency counter\<close>

text \<open>
  Claim C4. In every state the master reaches at the head of its loop,
  \<open>msg_deps\<close> is not negative: it is the number of generator jobs
  (\<^verbatim>\<open>load_xyts\<close>, \<^verbatim>\<open>load_xyts_ts\<close>) in the message list and in the
  slots, so it is zero exactly when no generator job is waiting or in flight. The
  same holds inside an iteration, after the dependency tracking of lines 465--491
  (where the job of the slave that asked is done and no longer counts), and between
  the decrement of line 473 and the increment of line 478.
\<close>

theorem deps_counts_generators:
  assumes "reachable a s"
  shows "0 \<le> msg_deps s
       \<and> msg_deps s = int (length (filter gen (msg_list s)) + length (filter gen (in_progress s)))
       \<and> (msg_deps s = 0 \<longleftrightarrow> \<not> (\<exists>m \<in> set (msg_list s) \<union> set (in_progress s). gen m))
       \<and> (\<forall>w s1. resolve a w s = Inr s1 \<longrightarrow>
            (gen (in_progress s ! w) \<longrightarrow> 0 \<le> msg_deps s - 1)
          \<and> 0 \<le> msg_deps s1
          \<and> (msg_deps s1 = 0 \<longleftrightarrow>
               \<not> (\<exists>m \<in> set (msg_list s1) \<union> set ((in_progress s)[w := PyNone]). gen m)))"
proof -
  from assms have I: "inv a s" by (rule reachable_inv)
  note I2 = invD(2) [OF I]
  have 1: "0 \<le> msg_deps s" unfolding I2 by simp
  have 2: "msg_deps s = 0 \<longleftrightarrow> \<not> (\<exists>m \<in> set (msg_list s) \<union> set (in_progress s). gen m)"
    unfolding I2 by (rule count_zero_iff)
  have 3: "\<forall>w s1. resolve a w s = Inr s1 \<longrightarrow>
            (gen (in_progress s ! w) \<longrightarrow> 0 \<le> msg_deps s - 1)
          \<and> 0 \<le> msg_deps s1
          \<and> (msg_deps s1 = 0 \<longleftrightarrow>
               \<not> (\<exists>m \<in> set (msg_list s1) \<union> set ((in_progress s)[w := PyNone]). gen m))"
  proof (intro allI impI)
    fix w s1 assume r: "resolve a w s = Inr s1"
    note d = resolve_deps [OF I r]
    have a: "gen (in_progress s ! w) \<longrightarrow> 0 \<le> msg_deps s - 1" using d(2) by linarith
    have b: "0 \<le> msg_deps s1" unfolding d(1) by simp
    have c: "msg_deps s1 = 0 \<longleftrightarrow>
               \<not> (\<exists>m \<in> set (msg_list s1) \<union> set ((in_progress s)[w := PyNone]). gen m)"
      unfolding d(1) by (rule count_zero_iff)
    from a b c show "(gen (in_progress s ! w) \<longrightarrow> 0 \<le> msg_deps s - 1)
          \<and> 0 \<le> msg_deps s1
          \<and> (msg_deps s1 = 0 \<longleftrightarrow>
               \<not> (\<exists>m \<in> set (msg_list s1) \<union> set ((in_progress s)[w := PyNone]). gen m))"
      by (intro conjI)
  qed
  from 1 I2 2 3 show ?thesis by (intro conjI)
qed


theorem deps_counts_generators_witness:
  "\<exists>s s1. reachable anim2 s \<and> resolve anim2 0 s = Inr s1 \<and> in_progress s ! 0 = Load_xyts
     \<and> msg_deps s = 1 \<and> 0 \<le> msg_deps s - 1 \<and> msg_deps s1 = 2
     \<and> (\<exists>m \<in> set (msg_list s1) \<union> set ((in_progress s)[0 := PyNone]). gen m)"
proof -
  define s0 where "s0 = \<lparr>msg_list = [Load_xyts, Timeslice (Params (Some 0) None),
       Timeslice (Params (Some 1) None), Timeslice (Params (Some 2) None),
       Timeslice (Params (Some 3) None)],
     msg_deps = 1, nproc = 2, in_progress = [PyNone, PyNone], comm_log = []\<rparr>"
  define s where "s = \<lparr>msg_list = [Timeslice (Params (Some 0) None),
       Timeslice (Params (Some 1) None), Timeslice (Params (Some 2) None),
       Timeslice (Params (Some 3) None)],
     msg_deps = 1, nproc = 2, in_progress = [Load_xyts, PyNone],
     comm_log = [Send 0 Load_xyts]\<rparr>"
  define s1 where "s1 = s\<lparr>msg_deps := 2, msg_list := msg_list s @ [Load_xyts_ts 0 2, Load_xyts_ts 1 2]\<rparr>"
  have "initial anim2 = Inr s0"
    by (simp add: initial_def anim2_def s0_def upt_conv_Cons numeral_2_eq_2)
  then have r0: "reachable anim2 s0" by (rule reachable.start)
  have i0: "iteration anim2 0 s0 = Inr s"
    by (simp add: iteration_def resolve_def stop_or_wait_def next_job_def s0_def s_def)
  have "nproc s0 \<noteq> 0" by (simp add: s0_def)
  with r0 have r: "reachable anim2 s" using i0 by (rule reachable.step)
  have r1: "resolve anim2 0 s = Inr s1"
    by (simp add: resolve_def s_def s1_def upt_conv_Cons)
  from deps_counts_generators [OF r] r1
  have "0 \<le> msg_deps s - 1 \<and> 0 \<le> msg_deps s1
      \<and> (msg_deps s1 = 0 \<longleftrightarrow>
           \<not> (\<exists>m \<in> set (msg_list s1) \<union> set ((in_progress s)[0 := PyNone]). gen m))"
    by (simp add: s_def)
  moreover have "msg_deps s1 = 2" "msg_deps s = 1" "in_progress s ! 0 = Load_xyts"
    by (simp_all add: s1_def s_def)
  ultimately show ?thesis using r r1 by (intro exI [of _ s] exI [of _ s1]) simp
qed

subsection \<open>Completion of \<^verbatim>\<open>load_xyts\<close>\<close>

text \<open>
  Claim C2. In a run with \<open>W = nprocs a\<close> slaves, when the master finds
  \<^verbatim>\<open>load_xyts\<close> in the slot of the slave that asked, \<open>nproc\<close> still equals
  \<open>W\<close> (no slave has been stopped), and the dependency tracking takes one off
  \<open>msg_deps\<close>, appends exactly \<open>W\<close> jobs \<^verbatim>\<open>load_xyts_ts\<close> with
  \<^verbatim>\<open>start\<close> \<open>= 0, \<dots>, W - 1\<close> and \<^verbatim>\<open>inc\<close> \<open>= W\<close>, and adds \<open>W\<close> to
  \<open>msg_deps\<close>. The jobs are pairwise different and the timeslices they cover
  (\<^verbatim>\<open>range(start, xfile.nt, inc)\<close>) are pairwise disjoint.
\<close>

theorem fan_out:
  assumes "reachable a s" and "w < length (in_progress s)" and "in_progress s ! w = Load_xyts"
  shows "nproc s = nprocs a
    \<and> resolve a w s = Inr (s\<lparr>msg_deps := msg_deps s - 1 + int (nprocs a),
          msg_list := msg_list s @ map (\<lambda>i. Load_xyts_ts i (nprocs a)) [0..<nprocs a]\<rparr>)
    \<and> length (map (\<lambda>i. Load_xyts_ts i (nprocs a)) [0..<nprocs a]) = nprocs a
    \<and> map start (map (\<lambda>i. Load_xyts_ts i (nprocs a)) [0..<nprocs a]) = [0..<nprocs a]
    \<and> (\<forall>m \<in> set (map (\<lambda>i. Load_xyts_ts i (nprocs a)) [0..<nprocs a]). inc m = nprocs a)
    \<and> distinct (map (\<lambda>i. Load_xyts_ts i (nprocs a)) [0..<nprocs a])
    \<and> (\<forall>i < nprocs a. \<forall>j < nprocs a. i \<noteq> j \<longrightarrow>
          set (py_range (int i) (nt a) (nprocs a)) \<inter> set (py_range (int j) (nt a) (nprocs a)) = {})"
proof -
  from assms(1) have I: "inv a s" by (rule reachable_inv)
  have "Load_xyts \<in> set (in_progress s)" using assms(2,3) by (metis nth_mem)
  then have "\<exists>m \<in> set (msg_list s) \<union> set (in_progress s). gen m"
    by (intro bexI [of _ Load_xyts]) simp_all
  with invD(5) [OF I] have n: "nproc s = nprocs a" by simp
  have r: "resolve a w s = Inr (s\<lparr>msg_deps := msg_deps s - 1 + int (nprocs a),
          msg_list := msg_list s @ map (\<lambda>i. Load_xyts_ts i (nprocs a)) [0..<nprocs a]\<rparr>)"
    using assms(2,3) n by (simp add: resolve_def)
  have m: "map start (map (\<lambda>i. Load_xyts_ts i (nprocs a)) [0..<nprocs a]) = [0..<nprocs a]"
    by (simp add: comp_def)
  have d: "distinct (map (\<lambda>i. Load_xyts_ts i (nprocs a)) [0..<nprocs a])"
    by (simp add: distinct_map inj_on_def)
  have p: "\<forall>i < nprocs a. \<forall>j < nprocs a. i \<noteq> j \<longrightarrow>
          set (py_range (int i) (nt a) (nprocs a)) \<inter> set (py_range (int j) (nt a) (nprocs a)) = {}"
    using disjoint_ranges by blast
  from n r m d p show ?thesis by simp
qed


theorem fan_out_witness:
  "reachable anim2 anim2_prep \<and> in_progress anim2_prep ! 0 = Load_xyts
   \<and> msg_deps anim2_prep = 1
   \<and> resolve anim2 0 anim2_prep = Inr (anim2_prep\<lparr>msg_deps := 2,
        msg_list := msg_list anim2_prep @ [Load_xyts_ts 0 2, Load_xyts_ts 1 2]\<rparr>)"
proof -
  have w: "0 < length (in_progress anim2_prep)" and l: "in_progress anim2_prep ! 0 = Load_xyts"
    by (simp_all add: anim2_prep_def)
  from fan_out [OF anim2_prep_reachable w l]
  have "resolve anim2 0 anim2_prep
      = Inr (anim2_prep\<lparr>msg_deps := msg_deps anim2_prep - 1 + int (nprocs anim2),
          msg_list := msg_list anim2_prep @ map (\<lambda>i. Load_xyts_ts i (nprocs anim2)) [0..<nprocs anim2]\<rparr>)"
    by (elim conjE)
  moreover have "nprocs anim2 = 2" "msg_deps anim2_prep = 1"
    by (simp_all add: anim2_def anim2_prep_def)
  ultimately show ?thesis using anim2_prep_reachable l
    by (simp add: upt_conv_Cons numeral_2_eq_2)
qed

subsection \<open>Completion of \<^verbatim>\<open>load_xyts_ts\<close>\<close>

text \<open>
  Claim C3 says that every completion of a \<^verbatim>\<open>load_xyts_ts\<close> job takes one off
  \<open>msg_deps\<close> and appends a \<^verbatim>\<open>timeslice\<close> job for exactly the dynamic frames
  whose timeslice lies in the job's partition. Lemma \<open>shard_done\<close> proves this
  for \<open>meta['t_frames'] \<noteq> 0\<close>, and \<open>shard_done_empty\<close> for a partition that
  no frame falls into. But line 486 divides by \<^verbatim>\<open>meta['t_frames']\<close>, which the
  command line \<^verbatim>\<open>-t 0 -m 0\<close> makes zero without any check: in the run below
  (one slave, which asks three times) the master finds the completed job
  \<^verbatim>\<open>load_xyts_ts\<close> with \<^verbatim>\<open>start = 0\<close>, frame \<open>0\<close> matches, and the master
  raises \<^verbatim>\<open>ZeroDivisionError\<close> before it appends a job or changes the counter.
\<close>

theorem shard_done_zero_t_frames:
  "initial anim0 = Inr \<lparr>msg_list = [Load_xyts], msg_deps = 1, nproc = 1,
       in_progress = [PyNone], comm_log = []\<rparr>
   \<and> run anim0 [0, 0] = Inr \<lparr>msg_list = [], msg_deps = 1, nproc = 1,
       in_progress = [Load_xyts_ts 0 1],
       comm_log = [Send 0 Load_xyts, Send 0 (Load_xyts_ts 0 1)]\<rparr>
   \<and> resolve anim0 0 \<lparr>msg_list = [], msg_deps = 1, nproc = 1,
       in_progress = [Load_xyts_ts 0 1],
       comm_log = [Send 0 Load_xyts, Send 0 (Load_xyts_ts 0 1)]\<rparr> = Inl ZeroDivisionError
   \<and> run anim0 [0, 0, 0] = Inl ZeroDivisionError"
  by (simp add: run_def initial_def anim0_def iteration_def resolve_def stop_or_wait_def
      next_job_def py_range_def upt_conv_Cons)

subsection \<open>Sentinels in the message list\<close>

text \<open>
  Claim C10. At the head of the loop the message list of the master holds jobs
  only. Inside an iteration the list is given a sentinel (\<open>PyNone\<close> or
  \<open>StopIteration\<close>) only when it is empty after the dependency tracking; the
  sentinel is then the whole list, it is the message taken off and sent to the slave
  that asked, and the list is empty again when the iteration ends. A message taken
  from a list that was not empty is a job.
\<close>

theorem sentinels_never_wait:
  assumes "reachable a s" and "iteration a w s = Inr s'"
  shows "(\<forall>x \<in> set (msg_list s). is_job x) \<and> (\<forall>x \<in> set (msg_list s'). is_job x)
    \<and> (\<exists>s1 m. resolve a w s = Inr s1 \<and> (\<forall>x \<in> set (msg_list s1). is_job x)
          \<and> comm_log s' = comm_log s @ [Send w m]
          \<and> (msg_list s1 \<noteq> [] \<longrightarrow>
                msg_list (stop_or_wait s1) = msg_list s1 \<and> is_job m \<and> msg_list s1 = m # msg_list s')
          \<and> (msg_list s1 = [] \<longrightarrow>
                \<not> is_job m \<and> msg_list (stop_or_wait s1) = [m] \<and> msg_list s' = []))"
proof -
  from assms(1) have I: "inv a s" by (rule reachable_inv)
  from inv_iteration [OF I assms(2)] have I': "inv a s'" .
  from assms(2) obtain s1 m where r: "resolve a w s = Inr s1"
    and l: "comm_log s' = comm_log s @ [Send w m]"
    and c: "(msg_list s1 = m # msg_list s' \<and> nproc s' = nproc s)
       \<or> (msg_list s1 = [] \<and> msg_deps s1 = 0 \<and> m = StopIteration \<and> msg_list s' = []
            \<and> nproc s' = nproc s - 1)
       \<or> (msg_list s1 = [] \<and> msg_deps s1 \<noteq> 0 \<and> m = PyNone \<and> msg_list s' = []
            \<and> nproc s' = nproc s)"
    by (rule iteration_char)
  from r obtain new where q1: "msg_list s1 = msg_list s @ new" and nj: "\<forall>m \<in> set new. is_job m"
    by (rule resolve_char)
  have j1: "\<forall>x \<in> set (msg_list s1). is_job x"
    unfolding q1 using invD(3) [OF I] nj by auto
  have a: "msg_list s1 \<noteq> [] \<longrightarrow>
      msg_list (stop_or_wait s1) = msg_list s1 \<and> is_job m \<and> msg_list s1 = m # msg_list s'"
    using c j1 by (auto simp: stop_or_wait_def)
  have b: "msg_list s1 = [] \<longrightarrow>
      \<not> is_job m \<and> msg_list (stop_or_wait s1) = [m] \<and> msg_list s' = []"
    using c by (auto simp: stop_or_wait_def)
  from r j1 l a b have "\<exists>s1 m. resolve a w s = Inr s1 \<and> (\<forall>x \<in> set (msg_list s1). is_job x)
          \<and> comm_log s' = comm_log s @ [Send w m]
          \<and> (msg_list s1 \<noteq> [] \<longrightarrow>
                msg_list (stop_or_wait s1) = msg_list s1 \<and> is_job m \<and> msg_list s1 = m # msg_list s')
          \<and> (msg_list s1 = [] \<longrightarrow>
                \<not> is_job m \<and> msg_list (stop_or_wait s1) = [m] \<and> msg_list s' = [])"
    by blast
  with invD(3) [OF I] invD(3) [OF I'] show ?thesis by (intro conjI)
qed

theorem sentinels_never_wait_witness:
  "reachable still1 still1_busy
   \<and> iteration still1 0 still1_busy = Inr (still1_busy\<lparr>nproc := 0,
        comm_log := comm_log still1_busy @ [Send 0 StopIteration],
        in_progress := [StopIteration]\<rparr>)
   \<and> resolve still1 0 still1_busy = Inr still1_busy
   \<and> msg_list still1_busy = []
   \<and> msg_list (stop_or_wait still1_busy) = [StopIteration]"
proof -
  have i: "iteration still1 0 still1_busy = Inr (still1_busy\<lparr>nproc := 0,
        comm_log := comm_log still1_busy @ [Send 0 StopIteration],
        in_progress := [StopIteration]\<rparr>)"
    by (simp add: iteration_def resolve_def stop_or_wait_def next_job_def still1_busy_def)
  have r: "resolve still1 0 still1_busy = Inr still1_busy"
    by (simp add: resolve_def still1_busy_def)
  have e: "msg_list still1_busy = []" by (simp add: still1_busy_def)
  from sentinels_never_wait [OF still1_busy_reachable i] r e
  have "msg_list (stop_or_wait still1_busy) = [StopIteration]" by auto
  with still1_busy_reachable i r e show ?thesis by (intro conjI)
qed

subsection \<open>The loop of the master\<close>

text \<open>
  Claim C1. In every iteration of a run, when the message list is empty after the
  dependency tracking, \<open>msg_deps\<close> is not negative; if it is greater than zero the
  master appends \<open>PyNone\<close> (wait) and nothing else, otherwise it appends one
  \<open>StopIteration\<close> and takes one off \<open>nproc\<close>. The loop goes on as long as
  \<open>nproc\<close> is not zero and ends when it is zero. Once the loop has ended the
  master gathers one report from each of the slaves it spawned (every slave has left
  its own loop and passes its logbook) and then disconnects; until then its only
  actions on the communicator were sends.
\<close>

theorem coordinator_loop:
  assumes "reachable a s"
  shows "(\<forall>w s1. resolve a w s = Inr s1 \<longrightarrow> msg_list s1 = [] \<longrightarrow>
            0 \<le> msg_deps s1
          \<and> (0 < msg_deps s1 \<longrightarrow> stop_or_wait s1 = s1\<lparr>msg_list := [PyNone]\<rparr>)
          \<and> (\<not> 0 < msg_deps s1 \<longrightarrow>
                stop_or_wait s1 = s1\<lparr>msg_list := [StopIteration], nproc := nproc s - 1\<rparr>))
    \<and> (\<forall>ws. nproc s = 0 \<longrightarrow> master_loop a ws s = Inr s)
    \<and> (\<forall>w ws. nproc s \<noteq> 0 \<longrightarrow>
          master_loop a (w # ws) s
            = (case iteration a w s of Inl e \<Rightarrow> Inl e | Inr s' \<Rightarrow> master_loop a ws s'))
    \<and> (\<forall>ws d. run a ws = Inr s \<longrightarrow>
          (nproc s \<noteq> 0 \<longrightarrow> master_main a d ws = Inr (Receiving s))
        \<and> (nproc s = 0 \<longrightarrow>
             (\<exists>reports. master_main a d ws
                  = Inr (Exited (s\<lparr>comm_log := comm_log s @ [Gather reports, Disconnect]\<rparr>))
                \<and> length reports = nprocs a
                \<and> (\<forall>w < nprocs a. slave_report (timed (d w) (replies w (comm_log s)))
                      = Some (reports ! w)))
             \<and> (\<forall>e \<in> set (comm_log s). \<exists>w m. e = Send w m)))"
proof -
  from assms have I: "inv a s" and T: "tr_inv s"
    by (rule reachable_inv, rule reachable_tr_inv)
  have A: "\<forall>w s1. resolve a w s = Inr s1 \<longrightarrow> msg_list s1 = [] \<longrightarrow>
            0 \<le> msg_deps s1
          \<and> (0 < msg_deps s1 \<longrightarrow> stop_or_wait s1 = s1\<lparr>msg_list := [PyNone]\<rparr>)
          \<and> (\<not> 0 < msg_deps s1 \<longrightarrow>
                stop_or_wait s1 = s1\<lparr>msg_list := [StopIteration], nproc := nproc s - 1\<rparr>)"
  proof (intro allI impI)
    fix w s1 assume r: "resolve a w s = Inr s1" and e: "msg_list s1 = []"
    have n: "0 \<le> msg_deps s1" unfolding resolve_deps(1) [OF I r] by simp
    from r have k: "nproc s1 = nproc s"
      by (auto simp: resolve_def split: if_splits msg.splits sum.splits)
    have p: "0 < msg_deps s1 \<longrightarrow> stop_or_wait s1 = s1\<lparr>msg_list := [PyNone]\<rparr>"
      using e by (simp add: stop_or_wait_def)
    have q: "\<not> 0 < msg_deps s1 \<longrightarrow>
                stop_or_wait s1 = s1\<lparr>msg_list := [StopIteration], nproc := nproc s - 1\<rparr>"
      using e n k by (simp add: stop_or_wait_def)
    from n p q show "0 \<le> msg_deps s1
          \<and> (0 < msg_deps s1 \<longrightarrow> stop_or_wait s1 = s1\<lparr>msg_list := [PyNone]\<rparr>)
          \<and> (\<not> 0 < msg_deps s1 \<longrightarrow>
                stop_or_wait s1 = s1\<lparr>msg_list := [StopIteration], nproc := nproc s - 1\<rparr>)"
      by (intro conjI)
  qed
  have B: "\<forall>ws. nproc s = 0 \<longrightarrow> master_loop a ws s = Inr s"
  proof (intro allI impI)
    fix ws assume "nproc s = 0"
    then show "master_loop a ws s = Inr s" by (cases ws) simp_all
  qed
  have C: "\<forall>w ws. nproc s \<noteq> 0 \<longrightarrow>
          master_loop a (w # ws) s
            = (case iteration a w s of Inl e \<Rightarrow> Inl e | Inr s' \<Rightarrow> master_loop a ws s')"
    by simp
  have D: "\<forall>ws d. run a ws = Inr s \<longrightarrow>
          (nproc s \<noteq> 0 \<longrightarrow> master_main a d ws = Inr (Receiving s))
        \<and> (nproc s = 0 \<longrightarrow>
             (\<exists>reports. master_main a d ws
                  = Inr (Exited (s\<lparr>comm_log := comm_log s @ [Gather reports, Disconnect]\<rparr>))
                \<and> length reports = nprocs a
                \<and> (\<forall>w < nprocs a. slave_report (timed (d w) (replies w (comm_log s)))
                      = Some (reports ! w)))
             \<and> (\<forall>e \<in> set (comm_log s). \<exists>w m. e = Send w m))"
  proof (intro allI impI conjI)
    fix ws d assume r: "run a ws = Inr s" and n: "nproc s \<noteq> 0"
    then show "master_main a d ws = Inr (Receiving s)" by (rule main_receiving)
  next
    fix ws d assume r: "run a ws = Inr s" and n: "nproc s = 0"
    let ?reports = "map (\<lambda>w. log_of (timed (d w) (butlast (replies w (comm_log s)))))
                     [0..<nprocs a]"
    have "master_main a d ws
        = Inr (Exited (s\<lparr>comm_log := comm_log s @ [Gather ?reports, Disconnect]\<rparr>))"
      using r n by (rule main_exited)
    moreover have "length ?reports = nprocs a" by simp
    moreover have "\<forall>w < nprocs a. slave_report (timed (d w) (replies w (comm_log s)))
                      = Some (?reports ! w)"
      using stopped_slave(3) [OF assms n] by simp
    ultimately show "\<exists>reports. master_main a d ws
                  = Inr (Exited (s\<lparr>comm_log := comm_log s @ [Gather reports, Disconnect]\<rparr>))
                \<and> length reports = nprocs a
                \<and> (\<forall>w < nprocs a. slave_report (timed (d w) (replies w (comm_log s)))
                      = Some (reports ! w))"
      by blast
  next
    show "\<forall>e \<in> set (comm_log s). \<exists>w m. e = Send w m"
      using T unfolding tr_inv_def by blast
  qed
  from A B C D show ?thesis by (intro conjI)
qed


theorem coordinator_loop_witness:
  "reachable still1 still1_busy
   \<and> resolve still1 0 still1_busy = Inr still1_busy
   \<and> msg_list still1_busy = [] \<and> msg_deps still1_busy = 0
   \<and> stop_or_wait still1_busy = still1_busy\<lparr>msg_list := [StopIteration], nproc := 0\<rparr>
   \<and> master_main still1 (\<lambda>w k. 1) [0] = Inr (Receiving still1_busy)"
proof -
  have r: "resolve still1 0 still1_busy = Inr still1_busy"
    by (simp add: resolve_def still1_busy_def)
  have e: "msg_list still1_busy = []" "msg_deps still1_busy = 0" "nproc still1_busy = 1"
    by (simp_all add: still1_busy_def)
  have u: "run still1 [0] = Inr still1_busy"
    by (simp add: run_def initial_def still1_def still1_busy_def iteration_def resolve_def
        stop_or_wait_def next_job_def)
  note c = coordinator_loop [OF still1_busy_reachable]
  from c r e have "stop_or_wait still1_busy
      = still1_busy\<lparr>msg_list := [StopIteration], nproc := nproc still1_busy - 1\<rparr>"
    by auto
  moreover from c u e have "master_main still1 (\<lambda>w k. 1) [0] = Inr (Receiving still1_busy)"
    by auto
  ultimately show ?thesis using still1_busy_reachable r e by simp
qed

subsection \<open>The reports of the slaves\<close>

text \<open>
  Claim C7, as the code has it. When the master's loop has ended, every slave has
  been sent \<open>StopIteration\<close> exactly once, as its last reply; it has therefore
  left its loop and passes its logbook to \<^verbatim>\<open>comm.gather\<close>. The master gathers
  the logbooks of all slaves, in rank order, and then disconnects. The logbook is the
  only variable a slave keeps from one pass to the next; it holds one pair
  \<^verbatim>\<open>('sleep', duration)\<close> for every \<^verbatim>\<open>None\<close> the slave was sent and one triple
  \<^verbatim>\<open>('timeslice', parameters, duration)\<close> for every \<^verbatim>\<open>timeslice\<close> job, in
  the order of the replies, and nothing for the other jobs.
\<close>

theorem logbooks_gathered:
  assumes "run a ws = Inr s" and "nproc s = 0"
  shows "master_main a d ws = Inr (Exited (s\<lparr>comm_log := comm_log s @
           [Gather (map (\<lambda>w. log_of (timed (d w) (butlast (replies w (comm_log s)))))
                     [0..<nprocs a]),
            Disconnect]\<rparr>))
    \<and> (\<forall>w < nprocs a.
          replies w (comm_log s) = butlast (replies w (comm_log s)) @ [StopIteration]
        \<and> StopIteration \<notin> set (butlast (replies w (comm_log s)))
        \<and> slave_report (timed (d w) (replies w (comm_log s)))
             = Some (log_of (timed (d w) (butlast (replies w (comm_log s)))))
        \<and> (\<forall>e \<in> set (log_of (timed (d w) (butlast (replies w (comm_log s))))).
              (\<exists>t. e = Tuple2 ''sleep'' t) \<or> (\<exists>p t. e = Tuple3 ''timeslice'' p t)))"
proof -
  from assms(1) have r: "reachable a s" by (rule run_reachable)
  have m: "master_main a d ws = Inr (Exited (s\<lparr>comm_log := comm_log s @
           [Gather (map (\<lambda>w. log_of (timed (d w) (butlast (replies w (comm_log s)))))
                     [0..<nprocs a]),
            Disconnect]\<rparr>))"
    using assms by (rule main_exited)
  have "\<forall>w < nprocs a.
          replies w (comm_log s) = butlast (replies w (comm_log s)) @ [StopIteration]
        \<and> StopIteration \<notin> set (butlast (replies w (comm_log s)))
        \<and> slave_report (timed (d w) (replies w (comm_log s)))
             = Some (log_of (timed (d w) (butlast (replies w (comm_log s)))))
        \<and> (\<forall>e \<in> set (log_of (timed (d w) (butlast (replies w (comm_log s))))).
              (\<exists>t. e = Tuple2 ''sleep'' t) \<or> (\<exists>p t. e = Tuple3 ''timeslice'' p t))"
  proof (intro allI impI conjI)
    fix w assume w: "w < nprocs a"
    show "replies w (comm_log s) = butlast (replies w (comm_log s)) @ [StopIteration]"
      using r assms(2) w by (rule stopped_slave(1))
    show "StopIteration \<notin> set (butlast (replies w (comm_log s)))"
      using r assms(2) w by (rule stopped_slave(2))
    show "slave_report (timed (d w) (replies w (comm_log s)))
             = Some (log_of (timed (d w) (butlast (replies w (comm_log s)))))"
      using r assms(2) w by (rule stopped_slave(3))
    show "\<forall>e \<in> set (log_of (timed (d w) (butlast (replies w (comm_log s))))).
              (\<exists>t. e = Tuple2 ''sleep'' t) \<or> (\<exists>p t. e = Tuple3 ''timeslice'' p t)"
      by (rule log_of_shapes)
  qed
  with m show ?thesis by (intro conjI)
qed

theorem logbooks_gathered_witness:
  "run still1 [0, 0] = Inr \<lparr>msg_list = [], msg_deps = 0, nproc = 0,
     in_progress = [StopIteration],
     comm_log = [Send 0 (Timeslice (Params None None)), Send 0 StopIteration]\<rparr>
   \<and> master_main still1 (\<lambda>w k. 2) [0, 0] = Inr (Exited \<lparr>msg_list = [], msg_deps = 0,
     nproc = 0, in_progress = [StopIteration],
     comm_log = [Send 0 (Timeslice (Params None None)), Send 0 StopIteration,
       Gather [[Tuple3 ''timeslice'' (Params None None) 2]], Disconnect]\<rparr>)"
proof -
  have n: "nproc \<lparr>msg_list = [], msg_deps = 0, nproc = 0,
     in_progress = [StopIteration],
     comm_log = [Send 0 (Timeslice (Params None None)), Send 0 StopIteration]\<rparr> = 0"
    by simp
  from logbooks_gathered [OF still1_done n, of "\<lambda>w k. 2"] still1_done
  show ?thesis by (simp add: still1_def timed_def)
qed

text \<open>
  Claim C7 as stated fails: the records of a logbook are not all of the shape
  (kind, duration). In the still image run the one slave renders the one image and
  is stopped; the logbook that the master gathers from it holds a triple, with the
  job's parameter dictionary in the middle.
\<close>

theorem timeslice_record_is_a_triple:
  "master_main still1 (\<lambda>w k. 1) [0, 0] = Inr (Exited \<lparr>msg_list = [], msg_deps = 0, nproc = 0,
     in_progress = [StopIteration],
     comm_log = [Send 0 (Timeslice (Params None None)), Send 0 StopIteration,
       Gather [[Tuple3 ''timeslice'' (Params None None) 1]], Disconnect]\<rparr>)
   \<and> \<not> list_all kind_duration [Tuple3 ''timeslice'' (Params None None) 1]"
  unfolding master_main_def still1_done
  by (simp add: gather_def timed_def slave_report_def slave0_def
      slave_body_def still1_def upt_conv_Cons numeral_2_eq_2)

subsection \<open>A reply that is no known task\<close>

lemma unknown_list_is_printed:
  "slave_loop ((Unknown_list x, d) # rest) sl
     = slave_loop rest (sl\<lparr>stdout := stdout sl @
         [''Slave recieved unknown task to complete: '' @ x @ ''.'']\<rparr>)"
  by (simp add: slave_body_def unknown_task_line_def)

text \<open>
  Claim C8 says that a slave prints and ignores every reply whose first item is none
  of the three job functions, and goes on asking. Lemma \<open>unknown_list_is_printed\<close>
  proves this for a reply that is a list. For a reply that is a tuple of more than
  one item (the master itself sends a tuple in still image mode) the line
  \<^verbatim>\<open>'... %s.' % (task)\<close> takes the items of the tuple as the arguments of the
  format and raises \<^verbatim>\<open>TypeError\<close>: the slave dies in its loop, before the next
  request and before \<^verbatim>\<open>comm.gather\<close>. Below, the reply is a tuple of an unknown
  function and two dictionaries.
\<close>

theorem unknown_tuple_raises:
  "slave_body (Unknown_tuple [''<built-in function len>'', ''{}'', ''{}'']) 1 slave0
     = Inl TypeError
   \<and> slave_loop [(Unknown_tuple [''<built-in function len>'', ''{}'', ''{}''], 1),
                  (Msg StopIteration, 1)] slave0 = Inl TypeError
   \<and> slave_report [(Unknown_tuple [''<built-in function len>'', ''{}'', ''{}''], 1),
                    (Msg StopIteration, 1)] = None"
  by (simp add: slave_body_def unknown_task_line_def slave_report_def)

subsection \<open>Ten jobs, three slaves, no dependency\<close>

text \<open>
  Claim C9. The master starts with ten \<^verbatim>\<open>timeslice\<close> jobs \<open>js\<close> in its list,
  \<open>msg_deps = 0\<close> and three slaves. The first ten requests may come from the
  three slaves in any order (\<open>ws1\<close>); the \<open>k\<close>-th of them is answered with the
  \<open>k\<close>-th job of the list. The list is then empty, and each slave's next request
  (\<open>ws2\<close>: the three slaves, in any order) is answered with \<open>StopIteration\<close>,
  after which \<open>nproc\<close> is zero and the loop has ended. The master has sent
  thirteen replies, ten jobs and three stops, and never \<open>PyNone\<close>.
\<close>

theorem scenario_A:
  assumes "length js = 10" and "\<forall>j \<in> set js. \<exists>p. j = Timeslice p"
    and "length ws1 = 10" and "set ws1 \<subseteq> {0, 1, 2}"
    and "distinct ws2" and "set ws2 = {0, 1, 2}"
  shows "master_loop a (ws1 @ ws2)
           \<lparr>msg_list = js, msg_deps = 0, nproc = 3,
              in_progress = [PyNone, PyNone, PyNone], comm_log = []\<rparr>
         = Inr \<lparr>msg_list = [], msg_deps = 0, nproc = 0,
              in_progress = [StopIteration, StopIteration, StopIteration],
              comm_log = map (\<lambda>(w, j). Send w j) (zip ws1 js)
                         @ map (\<lambda>w. Send w StopIteration) ws2\<rparr>
    \<and> length (map (\<lambda>(w, j). Send w j) (zip ws1 js)) = 10
    \<and> length (map (\<lambda>w. Send w StopIteration) ws2) = 3
    \<and> map (\<lambda>(w, j). j) (zip ws1 js) = js
    \<and> (\<forall>w. Send w PyNone \<notin> set (map (\<lambda>(w, j). Send w j) (zip ws1 js)
                                     @ map (\<lambda>w. Send w StopIteration) ws2))"
proof -
  let ?s0 = "\<lparr>msg_list = js, msg_deps = 0, nproc = 3,
              in_progress = [PyNone, PyNone, PyNone], comm_log = []\<rparr>"
  have l2: "length ws2 = 3"
  proof -
    have "length ws2 = card (set ws2)" using assms(5) by (simp add: distinct_card)
    also have "\<dots> = 3" unfolding assms(6) by simp
    finally show ?thesis .
  qed
  have d1: "length ws1 = length js" using assms(1,3) by simp
  have d2: "\<forall>w \<in> set ws1. w < length (in_progress ?s0)" using assms(4) by auto
  have d3: "\<forall>m \<in> set (in_progress ?s0). m = PyNone \<or> (\<exists>p. m = Timeslice p)" by simp
  have d5: "msg_list ?s0 = js @ []" by simp
  have d6: "nproc ?s0 \<noteq> 0" by simp
  from dispatch_phase [OF d1 d2 d3 assms(2) d5 d6, of a ws2] obtain xs where
    l: "master_loop a (ws1 @ ws2) ?s0
           = master_loop a ws2 (?s0\<lparr>msg_list := [],
               comm_log := comm_log ?s0 @ map (\<lambda>(w, j). Send w j) (zip ws1 js),
               in_progress := xs\<rparr>)"
    and n: "length xs = length (in_progress ?s0)"
    and r: "\<forall>m \<in> set xs. m = PyNone \<or> (\<exists>p. m = Timeslice p)"
    by blast
  let ?s1 = "?s0\<lparr>msg_list := [],
               comm_log := comm_log ?s0 @ map (\<lambda>(w, j). Send w j) (zip ws1 js),
               in_progress := xs\<rparr>"
  have n3: "length xs = 3" using n by simp
  have s2: "\<forall>w \<in> set ws2. w < length (in_progress ?s1)
           \<and> (in_progress ?s1 ! w = PyNone \<or> (\<exists>p. in_progress ?s1 ! w = Timeslice p))"
  proof
    fix w assume "w \<in> set ws2"
    then have w: "w < length xs" unfolding assms(6) n3 by auto
    then have "xs ! w \<in> set xs" by (rule nth_mem)
    with r w show "w < length (in_progress ?s1)
           \<and> (in_progress ?s1 ! w = PyNone \<or> (\<exists>p. in_progress ?s1 ! w = Timeslice p))"
      by simp
  qed
  have s3: "msg_list ?s1 = []" and s4: "msg_deps ?s1 = 0" and s5: "length ws2 \<le> nproc ?s1"
    using l2 by simp_all
  have "set ws2 = {0..<length xs}" unfolding assms(6) n3 by auto
  then have f: "fold (\<lambda>w xs. xs[w := StopIteration]) ws2 xs
      = [StopIteration, StopIteration, StopIteration]"
    by (simp add: fold_update_all n3 numeral_3_eq_3)
  have A: "master_loop a (ws1 @ ws2) ?s0
         = Inr \<lparr>msg_list = [], msg_deps = 0, nproc = 0,
              in_progress = [StopIteration, StopIteration, StopIteration],
              comm_log = map (\<lambda>(w, j). Send w j) (zip ws1 js)
                         @ map (\<lambda>w. Send w StopIteration) ws2\<rparr>"
    unfolding l stop_phase [OF assms(5) s2 s3 s4 s5] using f l2 by simp
  have B: "length (map (\<lambda>(w, j). Send w j) (zip ws1 js)) = 10" using assms(1,3) by simp
  have C: "length (map (\<lambda>w. Send w StopIteration) ws2) = 3" using l2 by simp
  have D: "map (\<lambda>(w, j). j) (zip ws1 js) = js"
  proof -
    have "(\<lambda>(w :: nat, j :: msg). j) = snd" by auto
    then show ?thesis using map_snd_zip [OF d1] by simp
  qed
  have E: "\<forall>w. Send w PyNone \<notin> set (map (\<lambda>(w, j). Send w j) (zip ws1 js)
                                     @ map (\<lambda>w. Send w StopIteration) ws2)"
  proof
    fix w
    { assume "Send w PyNone \<in> set (map (\<lambda>(w, j). Send w j) (zip ws1 js))"
      then obtain v j where "(v, j) \<in> set (zip ws1 js)" and "Send w PyNone = Send v j" by auto
      then have "PyNone \<in> set js" by (auto dest: set_zip_rightD)
      with assms(2) have False by auto }
    then show "Send w PyNone \<notin> set (map (\<lambda>(w, j). Send w j) (zip ws1 js)
                                     @ map (\<lambda>w. Send w StopIteration) ws2)"
      by auto
  qed
  from A B C D E show ?thesis by (intro conjI)
qed


theorem scenario_A_witness:
  "\<exists>js. initial anim10 = Inr \<lparr>msg_list = js, msg_deps = 0, nproc = 3,
              in_progress = [PyNone, PyNone, PyNone], comm_log = []\<rparr>
     \<and> length js = 10
     \<and> run anim10 ([0, 1, 2, 0, 1, 2, 0, 1, 2, 0] @ [1, 2, 0])
         = Inr \<lparr>msg_list = [], msg_deps = 0, nproc = 0,
              in_progress = [StopIteration, StopIteration, StopIteration],
              comm_log = map (\<lambda>(w, j). Send w j) (zip [0, 1, 2, 0, 1, 2, 0, 1, 2, 0] js)
                         @ [Send 1 StopIteration, Send 2 StopIteration, Send 0 StopIteration]\<rparr>"
proof -
  define js where "js = map (\<lambda>i. Timeslice (Params (Some (int i)) None)) [0..<5]
      @ map (\<lambda>i. Timeslice (Params (Some (5 + int i)) None)) [0..<5]"
  have i: "initial anim10 = Inr \<lparr>msg_list = js, msg_deps = 0, nproc = 3,
              in_progress = [PyNone, PyNone, PyNone], comm_log = []\<rparr>"
    by (simp add: initial_def anim10_def js_def numeral_3_eq_3)
  have 1: "length js = 10" by (simp add: js_def)
  have 2: "\<forall>j \<in> set js. \<exists>p. j = Timeslice p" by (auto simp: js_def)
  have 3: "length [0, 1, 2, 0, 1, 2, 0, 1, 2, 0 :: nat] = 10" by simp
  have 4: "set [0, 1, 2, 0, 1, 2, 0, 1, 2, 0 :: nat] \<subseteq> {0, 1, 2}" by simp
  have 5: "distinct [1, 2, 0 :: nat]" by simp
  have 6: "set [1, 2, 0 :: nat] = {0, 1, 2}" by auto
  from scenario_A [OF 1 2 3 4 5 6, of anim10] i
  have "run anim10 ([0, 1, 2, 0, 1, 2, 0, 1, 2, 0] @ [1, 2, 0])
         = Inr \<lparr>msg_list = [], msg_deps = 0, nproc = 0,
              in_progress = [StopIteration, StopIteration, StopIteration],
              comm_log = map (\<lambda>(w, j). Send w j) (zip [0, 1, 2, 0, 1, 2, 0, 1, 2, 0] js)
                         @ [Send 1 StopIteration, Send 2 StopIteration, Send 0 StopIteration]\<rparr>"
    unfolding run_def by simp
  with i 1 show ?thesis by blast
qed

subsection \<open>One stop for every slave\<close>

text \<open>
  Claim C5 says that in every run in which no slave crashes each slave is sent
  \<open>StopIteration\<close> exactly once, and that every slave that asks for work is
  sent it in the end. As long as the master does not raise this is what the code
  does: no slave is ever sent a second \<open>StopIteration\<close> (lemma
  \<open>stops_at_most_once\<close>), when the loop has ended every slave has been sent
  exactly one (lemma \<open>stops_exactly_once_at_the_end\<close>), and for
  \<open>meta['t_frames'] \<noteq> 0\<close> the loop does end under every fair schedule
  (lemma \<open>fair_run_stops_every_slave\<close>). But the master can raise. In the run
  below (\<open>anim0\<close>: one slave, started with \<^verbatim>\<open>-t 0 -m 0\<close>) the slave runs \<^verbatim>\<open>load_xyts\<close> and \<^verbatim>\<open>load_xyts_ts\<close>
  without crashing and asks a third time; the master raises
  \<^verbatim>\<open>ZeroDivisionError\<close> in line 486, whatever requests would follow. No
  \<open>StopIteration\<close> has been sent, and none will be.
\<close>

theorem no_stop_after_master_raises:
  "run anim0 [0] = Inr \<lparr>msg_list = [], msg_deps = 1, nproc = 1,
       in_progress = [Load_xyts], comm_log = [Send 0 Load_xyts]\<rparr>
   \<and> run anim0 [0, 0] = Inr \<lparr>msg_list = [], msg_deps = 1, nproc = 1,
       in_progress = [Load_xyts_ts 0 1],
       comm_log = [Send 0 Load_xyts, Send 0 (Load_xyts_ts 0 1)]\<rparr>
   \<and> replies 0 [Send 0 Load_xyts, Send 0 (Load_xyts_ts 0 1)] = [Load_xyts, Load_xyts_ts 0 1]
   \<and> run anim0 (0 # 0 # 0 # ws) = Inl ZeroDivisionError"
  by (simp add: run_def initial_def anim0_def iteration_def resolve_def stop_or_wait_def
      next_job_def py_range_def upt_conv_Cons)

end
